theory Spec2Isabelle
  imports Main "HOL-Library.Word"
begin

section \<open>JavaScript strings and the string primitives the handlers use\<close>

text \<open>
  A JavaScript string is a sequence of UTF-16 code units; \<open>length\<close>, \<open>substring\<close>,
  \<open>split\<close>, \<open>lastIndexOf\<close>, \<open>startsWith\<close> and the regular expression of the handlers
  (which has no \<open>u\<close> flag) all count and compare code units.
\<close>

type_synonym code_unit = "16 word"
type_synonym jsstring = "code_unit list"

text \<open>An ASCII string literal of the source, as code units.\<close>

definition lit :: "string \<Rightarrow> jsstring" where
  "lit s = map (\<lambda>c. of_nat (of_char c)) s"

text \<open>
  \<open>String.prototype.trim\<close> removes leading and trailing WhiteSpace and LineTerminator
  code units (ECMAScript: TAB, VT, FF, SP, NBSP, ZWNBSP, the Unicode space separators,
  and LF, CR, LS, PS).
\<close>

definition isWhiteSpace :: "code_unit \<Rightarrow> bool" where
  "isWhiteSpace c \<longleftrightarrow>
     c \<in> set [0x0009, 0x000A, 0x000B, 0x000C, 0x000D, 0x0020, 0x00A0, 0x1680,
              0x2000, 0x2001, 0x2002, 0x2003, 0x2004, 0x2005, 0x2006, 0x2007,
              0x2008, 0x2009, 0x200A, 0x2028, 0x2029, 0x202F, 0x205F, 0x3000, 0xFEFF]"

definition trim :: "jsstring \<Rightarrow> jsstring" where
  "trim s = rev (dropWhile isWhiteSpace (rev (dropWhile isWhiteSpace s)))"

definition startsWith :: "jsstring \<Rightarrow> jsstring \<Rightarrow> bool" where
  "startsWith s p \<longleftrightarrow> take (length p) s = p"

text \<open>
  \<open>s.split(sep)\<close> for a string separator: the pieces between the successive leftmost
  occurrences of \<open>sep\<close>, scanning left to right and resuming after each occurrence.
  \<open>piece\<close> is the piece being collected. For the empty separator JavaScript returns the
  code units one by one.
\<close>

function split_from :: "jsstring \<Rightarrow> jsstring \<Rightarrow> jsstring \<Rightarrow> jsstring list" where
  "split_from sep piece [] = [piece]"
| "split_from sep piece (c # cs) =
     (if sep \<noteq> [] \<and> startsWith (c # cs) sep
      then piece # split_from sep [] (drop (length sep) (c # cs))
      else split_from sep (piece @ [c]) cs)"
  by pat_completeness auto
termination
  by (relation "measure (\<lambda>(sep, piece, s). length s)") (auto simp: startsWith_def)

definition split :: "jsstring \<Rightarrow> jsstring \<Rightarrow> jsstring list" where
  "split s sep = (if sep = [] then map (\<lambda>c. [c]) s else split_from sep [] s)"

text \<open>\<open>xs.join(sep)\<close>.\<close>

fun join :: "jsstring list \<Rightarrow> jsstring \<Rightarrow> jsstring" where
  "join [] sep = []"
| "join [x] sep = x"
| "join (x # y # ys) sep = x @ sep @ join (y # ys) sep"

text \<open>
  \<open>s.lastIndexOf(p)\<close>: the greatest index at which \<open>p\<close> occurs in \<open>s\<close>, or \<open>-1\<close>.
  The scan runs left to right, \<open>k\<close> is the current index and \<open>found\<close> the last index
  seen so far.
\<close>

fun lastIndexOf_from :: "jsstring \<Rightarrow> jsstring \<Rightarrow> nat \<Rightarrow> int \<Rightarrow> int" where
  "lastIndexOf_from [] p k found = (if p = [] then int k else found)"
| "lastIndexOf_from (c # cs) p k found =
     lastIndexOf_from cs p (Suc k) (if startsWith (c # cs) p then int k else found)"

definition lastIndexOf :: "jsstring \<Rightarrow> jsstring \<Rightarrow> int" where
  "lastIndexOf s p = lastIndexOf_from s p 0 (- 1)"

text \<open>The decimal rendering of a non-negative integer inside a template literal.\<close>

fun toString :: "nat \<Rightarrow> jsstring" where
  "toString n =
     (if n < 10 then [of_nat (48 + n)]
      else toString (n div 10) @ [of_nat (48 + n mod 10)])"

declare toString.simps [simp del]

section \<open>The Telegram handler: parsing the result block\<close>

text \<open>
  \<open>line.split(':::')[1]\<close>: the second piece, \<open>undefined\<close> (here \<open>None\<close>) when the line
  has no field separator.
\<close>

definition field1 :: "jsstring \<Rightarrow> jsstring option" where
  "field1 line = (case split line (lit '':::'') of _ # x # _ \<Rightarrow> Some x | _ \<Rightarrow> None)"

record scan_state =
  currentQuestion :: jsstring
  currentAnswerLines :: "jsstring list"
  inAnswer :: bool

definition scan_init :: scan_state where
  "scan_init = \<lparr>currentQuestion = [], currentAnswerLines = [], inAnswer = False\<rparr>"

text \<open>
  The body of \<open>for (const line of lines)\<close>. A string is truthy when it is defined and
  not empty.
\<close>

definition scan_line :: "scan_state \<Rightarrow> jsstring \<Rightarrow> scan_state" where
  "scan_line st line =
     (if startsWith line (lit ''QUESTION_'') then
        (case field1 line of
           None \<Rightarrow> st
         | Some question \<Rightarrow>
             if question \<noteq> [] then st\<lparr>currentQuestion := trim question\<rparr> else st)
      else if startsWith line (lit ''ANSWER_'') then
        (case field1 line of
           None \<Rightarrow> st\<lparr>inAnswer := True\<rparr>
         | Some answerFirstLine \<Rightarrow>
             if answerFirstLine \<noteq> []
             then st\<lparr>currentAnswerLines := currentAnswerLines st @ [trim answerFirstLine],
                     inAnswer := True\<rparr>
             else st\<lparr>inAnswer := True\<rparr>)
      else if inAnswer st \<and> trim line \<noteq> [] then
        st\<lparr>currentAnswerLines := currentAnswerLines st @ [trim line]\<rparr>
      else st)"

definition scan_pair :: "jsstring \<Rightarrow> scan_state" where
  "scan_pair pair = foldl scan_line scan_init (split (trim pair) (lit ''\<newline>''))"

text \<open>
  The body of \<open>for (const pair of qaPairs)\<close>, on the two arrays \<open>questions\<close> and
  \<open>answers\<close>.
\<close>

definition parse_pair ::
  "jsstring list \<times> jsstring list \<Rightarrow> jsstring \<Rightarrow> jsstring list \<times> jsstring list" where
  "parse_pair qa pair =
     (let st = scan_pair pair;
          questions = (if currentQuestion st \<noteq> [] then fst qa @ [currentQuestion st] else fst qa);
          answers = (if length (currentAnswerLines st) > 0
                     then snd qa @ [join (currentAnswerLines st) (lit ''\<newline>\<newline>'')]
                     else snd qa)
      in (questions, answers))"

definition qaPairs :: "jsstring \<Rightarrow> jsstring list" where
  "qaPairs resultsBlock =
     filter (\<lambda>pair. length (trim pair) > 0) (split resultsBlock (lit ''---''))"

definition parse_block :: "jsstring \<Rightarrow> jsstring list \<times> jsstring list" where
  "parse_block resultsBlock = foldl parse_pair ([], []) (qaPairs resultsBlock)"

section \<open>Locating the result block\<close>

text \<open>
  \<open>split_at_first p before s\<close> cuts \<open>s\<close> at the leftmost occurrence of \<open>p\<close> and returns
  what precedes and what follows it.
\<close>

fun split_at_first :: "jsstring \<Rightarrow> jsstring \<Rightarrow> jsstring \<Rightarrow> (jsstring \<times> jsstring) option" where
  "split_at_first p before [] = (if p = [] then Some (before, []) else None)"
| "split_at_first p before (c # cs) =
     (if startsWith (c # cs) p then Some (before, drop (length p) (c # cs))
      else split_at_first p (before @ [c]) cs)"

text \<open>
  \<open>stdout.match(/M_RESULTS_START\n={80}\n([\s\S]*?)\n={80}\nM_RESULTS_END/)\<close> for a
  marker word \<open>M\<close>. The expression is a literal, a lazy run of arbitrary code units (the
  capture) and a literal. A backtracking matcher tries start positions from the left and,
  at each, the shortest capture first: the match starts at the leftmost occurrence of the
  first literal and the capture ends at the leftmost occurrence of the second literal
  after it. When no second literal follows the leftmost first literal, none follows a
  later one either, and the result is \<open>null\<close>. The function returns capture group 1.
\<close>

definition results_start :: "string \<Rightarrow> jsstring" where
  "results_start marker =
     lit marker @ lit ''_RESULTS_START\<newline>'' @ replicate 80 0x3D @ lit ''\<newline>''"

definition results_end :: "string \<Rightarrow> jsstring" where
  "results_end marker =
     lit ''\<newline>'' @ replicate 80 0x3D @ lit ''\<newline>'' @ lit marker @ lit ''_RESULTS_END''"

definition results_match :: "string \<Rightarrow> jsstring \<Rightarrow> jsstring option" where
  "results_match marker stdout =
     (case split_at_first (results_start marker) [] stdout of
        None \<Rightarrow> None
      | Some (pre, rest) \<Rightarrow>
          (case split_at_first (results_end marker) [] rest of
             None \<Rightarrow> None
           | Some (body, post) \<Rightarrow> Some body))"

section \<open>Delivery through the callback\<close>

text \<open>
  The handlers deliver a message with \<open>if (params.callback) await params.callback({text,
  source})\<close>. The callback may be absent; when present, the promise it returns is either
  fulfilled or rejected, depending on anything that happened before. The trace records
  the call and its settlement. A rejection is thrown at the \<open>await\<close> and leaves the
  \<open>try\<close> block: the result is then \<open>Inl\<close> of the trace so far.
\<close>

record content =
  msg_text :: jsstring
  msg_source :: jsstring

datatype event = Call content | Fulfilled content | Rejected content

type_synonym callback = "event list \<Rightarrow> content \<Rightarrow> bool"

type_synonym outcome = "event list + event list"

definition await_callback :: "callback option \<Rightarrow> content \<Rightarrow> event list \<Rightarrow> outcome" where
  "await_callback cb c tr =
     (case cb of
        None \<Rightarrow> Inr tr
      | Some f \<Rightarrow>
          if f tr c then Inr (tr @ [Call c, Fulfilled c])
          else Inl (tr @ [Call c, Rejected c]))"

text \<open>A \<open>for\<close> loop whose body awaits: the first rejection ends it.\<close>

fun for_each :: "('a \<Rightarrow> event list \<Rightarrow> outcome) \<Rightarrow> 'a list \<Rightarrow> event list \<Rightarrow> outcome" where
  "for_each body [] tr = Inr tr"
| "for_each body (x # xs) tr =
     (case body x tr of Inl t \<Rightarrow> Inl t | Inr t \<Rightarrow> for_each body xs t)"

section \<open>The Telegram handler: sending the records\<close>

definition telegram :: "jsstring \<Rightarrow> content" where
  "telegram t = \<lparr>msg_text = t, msg_source = lit ''telegram''\<rparr>"

text \<open>The body of the loop over \<open>i\<close>, for \<open>question = questions[i]\<close>, \<open>answer = answers[i]\<close>.\<close>

definition telegram_send_record ::
  "callback option \<Rightarrow> nat \<Rightarrow> jsstring \<Rightarrow> jsstring \<Rightarrow> event list \<Rightarrow> outcome" where
  "telegram_send_record cb i question answer tr =
     (let paragraphs = filter (\<lambda>p. length (trim p) > 0) (split answer (lit ''\<newline>\<newline>''))
      in if length paragraphs = 0 then
           await_callback cb
             (telegram (lit ''\<newline>'' @ toString (i + 1) @ lit ''. '' @ question
                        @ lit ''\<newline>\<newline>Answer: '' @ answer)) tr
         else
           (case await_callback cb
                   (telegram (lit ''\<newline>'' @ toString (i + 1) @ lit ''. '' @ question
                              @ lit ''\<newline>\<newline>Answer: '' @ paragraphs ! 0)) tr of
              Inl t \<Rightarrow> Inl t
            | Inr t \<Rightarrow>
                for_each (\<lambda>j. await_callback cb (telegram (lit ''Continuation: '' @ paragraphs ! j)))
                  [1 ..< length paragraphs] t))"

definition telegram_send_records ::
  "callback option \<Rightarrow> jsstring list \<Rightarrow> jsstring list \<Rightarrow> event list \<Rightarrow> outcome" where
  "telegram_send_records cb questions answers tr =
     for_each (\<lambda>i. telegram_send_record cb i (questions ! i) (answers ! i))
       [0 ..< min (length questions) (length answers)] tr"

text \<open>The two notices; both begin with U+26A0 U+FE0F (a warning sign).\<close>

definition no_results_notice :: jsstring where
  "no_results_notice =
     [0x26A0, 0xFE0F] @ lit '' Processing completed but no hypothesis results were generated.''
     @ lit ''\<newline>\<newline>This might happen if:\<newline>- No patterns were found in the image''
     @ lit ''\<newline>- The image text was too short\<newline>- OCR extraction failed''
     @ lit ''\<newline>\<newline>Check the server logs for details.''"

definition no_block_notice :: jsstring where
  "no_block_notice =
     [0x26A0, 0xFE0F] @ lit '' Processing completed but results could not be parsed.''
     @ lit ''\<newline>\<newline>Check the logs for detailed output.''"

text \<open>
  The body of the \<open>try\<close> block from the regular expression match on, as a function of
  the standard output of the pipeline.
\<close>

definition telegram_try :: "callback option \<Rightarrow> jsstring \<Rightarrow> event list \<Rightarrow> outcome" where
  "telegram_try cb stdout tr =
     (case results_match ''TELEGRAM'' stdout of
        None \<Rightarrow> await_callback cb (telegram no_block_notice) tr
      | Some resultsBlock \<Rightarrow>
          if resultsBlock = [] then await_callback cb (telegram no_block_notice) tr
          else
            (let qa = parse_block resultsBlock; questions = fst qa; answers = snd qa
             in if length questions > 0 \<and> length answers > 0
                then telegram_send_records cb questions answers tr
                else await_callback cb (telegram no_results_notice) tr))"

text \<open>
  The \<open>catch\<close> block: a rejection thrown in the \<open>try\<close> block is reported through the
  callback, with a text made of U+274C, a fixed text and the message of the error
  (\<open>error instanceof Error ? error.message : String(error)\<close>). Which error a rejected
  promise carries is up to the callback: \<open>error_message t\<close> stands for the message of the
  error that ended the trace \<open>t\<close>. A rejection of this last call leaves the handler.
\<close>

type_synonym rejection = "event list \<Rightarrow> jsstring"

definition error_notice :: "jsstring \<Rightarrow> jsstring" where
  "error_notice message =
     [0x274C] @ lit '' Error processing image: '' @ message
     @ lit ''\<newline>\<newline>Please check the logs for more details.''"

text \<open>The handler from the regular expression match on: the \<open>try\<close> block and its \<open>catch\<close>.\<close>

definition telegram_results ::
  "callback option \<Rightarrow> rejection \<Rightarrow> jsstring \<Rightarrow> event list \<Rightarrow> outcome" where
  "telegram_results cb error_message stdout tr =
     (case telegram_try cb stdout tr of
        Inr t \<Rightarrow> Inr t
      | Inl t \<Rightarrow> await_callback cb (telegram (error_notice (error_message t))) t)"

section \<open>The Discord handler\<close>

definition discord :: "jsstring \<Rightarrow> content" where
  "discord t = \<lparr>msg_text = t, msg_source = lit ''discord''\<rparr>"

text \<open>The body of \<open>for (const line of lines)\<close> of the Discord handler.\<close>

definition discord_parse_line ::
  "jsstring list \<times> jsstring list \<Rightarrow> jsstring \<Rightarrow> jsstring list \<times> jsstring list" where
  "discord_parse_line qa line =
     (if startsWith line (lit ''QUESTION_'') then
        (case field1 line of
           None \<Rightarrow> qa
         | Some question \<Rightarrow> if question \<noteq> [] then (fst qa @ [trim question], snd qa) else qa)
      else if startsWith line (lit ''ANSWER_'') then
        (case field1 line of
           None \<Rightarrow> qa
         | Some answer \<Rightarrow> if answer \<noteq> [] then (fst qa, snd qa @ [trim answer]) else qa)
      else qa)"

definition discord_parse_block :: "jsstring \<Rightarrow> jsstring list \<times> jsstring list" where
  "discord_parse_block resultsBlock =
     foldl discord_parse_line ([], []) (split resultsBlock (lit ''\<newline>''))"

definition DISCORD_MAX_LENGTH :: nat where
  "DISCORD_MAX_LENGTH = 1900"

definition chunkSize :: nat where
  "chunkSize = DISCORD_MAX_LENGTH - 50"

text \<open>
  One pass of the body of \<open>while (remainingAnswer.length > 0)\<close> up to
  \<open>answerChunks.push(chunk)\<close>. The source tests \<open>breakPoint > chunkSize * 0.7\<close> in
  double precision; the product \<open>1850 * 0.7\<close> is the double 1295 exactly, and the test is
  written here on integers, both sides multiplied by ten.
\<close>

definition next_chunk :: "jsstring \<Rightarrow> jsstring" where
  "next_chunk remainingAnswer =
     (let chunk = take chunkSize remainingAnswer in
      if length remainingAnswer > chunkSize then
        (let lastPeriod = lastIndexOf chunk (lit ''. '');
             lastNewline = lastIndexOf chunk (lit ''\<newline>'');
             breakPoint = max lastPeriod lastNewline
         in if 10 * breakPoint > 7 * int chunkSize
            then take (nat (breakPoint + 1)) chunk
            else chunk)
      else chunk)"

text \<open>
  The loop itself, on the array \<open>answerChunks\<close> and the string \<open>remainingAnswer\<close>;
  \<open>None\<close> stands for a loop that never exits.
\<close>

partial_function (option) split_loop :: "jsstring list \<Rightarrow> jsstring \<Rightarrow> jsstring list option" where
  "split_loop answerChunks remainingAnswer =
     (if length remainingAnswer > 0 then
        (let chunk = next_chunk remainingAnswer in
         split_loop (answerChunks @ [chunk]) (trim (drop (length chunk) remainingAnswer)))
      else Some answerChunks)"

text \<open>
  The body of the loop over \<open>i\<close>. \<open>None\<close> is returned when the splitting loop does not
  exit; \<open>Some (Inl t)\<close> when a callback rejected.
\<close>

definition discord_send_record ::
  "callback option \<Rightarrow> jsstring list \<Rightarrow> nat \<Rightarrow> jsstring \<Rightarrow> jsstring \<Rightarrow> event list
     \<Rightarrow> outcome option" where
  "discord_send_record cb questions i question answer tr =
     (let messageText = lit ''\<newline>'' @ toString (i + 1) @ lit ''. '' @ question
                        @ lit ''\<newline>\<newline>'' @ lit ''Answer: '' @ answer;
          sent =
            (if length messageText > DISCORD_MAX_LENGTH then
               (case await_callback cb
                       (discord (lit ''\<newline>'' @ toString (i + 1) @ lit ''. '' @ question
                                 @ lit ''\<newline>\<newline>Answer (part 1):'')) tr of
                  Inl t \<Rightarrow> Some (Inl t)
                | Inr t \<Rightarrow>
                    (case split_loop [] answer of
                       None \<Rightarrow> None
                     | Some answerChunks \<Rightarrow>
                         Some (for_each
                           (\<lambda>j. await_callback cb
                              (discord ((if j = 0 then []
                                         else lit ''Answer (part '' @ toString (j + 1) @ lit ''): '')
                                        @ answerChunks ! j)))
                           [0 ..< length answerChunks] t)))
             else Some (await_callback cb (discord messageText) tr))
      in case sent of
           None \<Rightarrow> None
         | Some (Inl t) \<Rightarrow> Some (Inl t)
         | Some (Inr t) \<Rightarrow>
             if int i < int (length questions) - 1
             then Some (await_callback cb (discord (lit ''---'')) t)
             else Some (Inr t))"

fun for_each_opt ::
  "('a \<Rightarrow> event list \<Rightarrow> outcome option) \<Rightarrow> 'a list \<Rightarrow> event list \<Rightarrow> outcome option" where
  "for_each_opt body [] tr = Some (Inr tr)"
| "for_each_opt body (x # xs) tr =
     (case body x tr of
        None \<Rightarrow> None
      | Some (Inl t) \<Rightarrow> Some (Inl t)
      | Some (Inr t) \<Rightarrow> for_each_opt body xs t)"

text \<open>
  The header message: U+2705, the text, U+1F4CA (a surrogate pair), the text.
\<close>

definition discord_header :: jsstring where
  "discord_header =
     [0x2705] @ lit '' Chronos Analysis Complete!\<newline>\<newline>''
     @ [0xD83D, 0xDCCA] @ lit '' Hypothesis Verification Results:''"

definition discord_send_records ::
  "callback option \<Rightarrow> jsstring list \<Rightarrow> jsstring list \<Rightarrow> event list \<Rightarrow> outcome option" where
  "discord_send_records cb questions answers tr =
     (case await_callback cb (discord discord_header) tr of
        Inl t \<Rightarrow> Some (Inl t)
      | Inr t \<Rightarrow>
          for_each_opt (\<lambda>i. discord_send_record cb questions i (questions ! i) (answers ! i))
            [0 ..< min (length questions) (length answers)] t)"

definition discord_try :: "callback option \<Rightarrow> jsstring \<Rightarrow> event list \<Rightarrow> outcome option" where
  "discord_try cb stdout tr =
     (case results_match ''DISCORD'' stdout of
        None \<Rightarrow> Some (await_callback cb (discord no_block_notice) tr)
      | Some resultsBlock \<Rightarrow>
          if resultsBlock = [] then Some (await_callback cb (discord no_block_notice) tr)
          else
            (let qa = discord_parse_block resultsBlock; questions = fst qa; answers = snd qa
             in if length questions > 0 \<and> length answers > 0
                then discord_send_records cb questions answers tr
                else Some (await_callback cb (discord no_results_notice) tr)))"

definition discord_results ::
  "callback option \<Rightarrow> rejection \<Rightarrow> jsstring \<Rightarrow> event list \<Rightarrow> outcome option" where
  "discord_results cb error_message stdout tr =
     (case discord_try cb stdout tr of
        None \<Rightarrow> None
      | Some (Inr t) \<Rightarrow> Some (Inr t)
      | Some (Inl t) \<Rightarrow> Some (await_callback cb (discord (error_notice (error_message t))) t))"


section \<open>Notions used to state the properties\<close>

text \<open>\<open>p\<close> occurs in \<open>s\<close> at index \<open>k\<close>.\<close>

definition occurs_at :: "jsstring \<Rightarrow> jsstring \<Rightarrow> nat \<Rightarrow> bool" where
  "occurs_at s p k \<longleftrightarrow> startsWith (drop k s) p"

text \<open>A string of white space only.\<close>

definition all_ws :: "jsstring \<Rightarrow> bool" where
  "all_ws w \<longleftrightarrow> list_all isWhiteSpace w"

text \<open>
  \<open>weave cs ws\<close> is the text \<open>c\<^sub>1 w\<^sub>1 c\<^sub>2 w\<^sub>2 \<dots>\<close>: the chunks in order, each
  followed by the run of code units that was removed after it.
\<close>

fun weave :: "jsstring list \<Rightarrow> jsstring list \<Rightarrow> jsstring" where
  "weave (c # cs) (w # ws) = c @ w @ weave cs ws"
| "weave cs ws = []"

text \<open>
  A breakpoint of a candidate chunk: an index at which \<open>'. '\<close> or a line feed occurs.
\<close>

definition is_breakpoint :: "jsstring \<Rightarrow> nat \<Rightarrow> bool" where
  "is_breakpoint chunk b \<longleftrightarrow> occurs_at chunk (lit ''. '') b \<or> occurs_at chunk (lit ''\<newline>'') b"

text \<open>
  Two answers longer than one chunk: 1840 letters \<open>a\<close>, a full stop, two spaces and
  100 letters \<open>b\<close>; and 1295 letters \<open>a\<close>, a full stop, one space and 600 letters \<open>b\<close>.
\<close>

definition two_space_answer :: jsstring where
  "two_space_answer = replicate 1840 0x61 @ lit ''.  '' @ replicate 100 0x62"

definition boundary_answer :: jsstring where
  "boundary_answer = replicate 1295 0x61 @ lit ''. '' @ replicate 600 0x62"

text \<open>The trace of a result, and the messages of the calls of a trace.\<close>

fun trace_of :: "outcome \<Rightarrow> event list" where
  "trace_of (Inl t) = t"
| "trace_of (Inr t) = t"

fun calls :: "event list \<Rightarrow> content list" where
  "calls [] = []"
| "calls (Call c # es) = c # calls es"
| "calls (Fulfilled c # es) = calls es"
| "calls (Rejected c # es) = calls es"

text \<open>The trace of calls that were all awaited and fulfilled, one after the other.\<close>

definition awaited :: "content list \<Rightarrow> event list" where
  "awaited cs = concat (map (\<lambda>c. [Call c, Fulfilled c]) cs)"

text \<open>
  \<open>sequential plan n tr\<close>: the messages of \<open>plan\<close> are delivered in order, each call
  settled before the next is made; all of them when \<open>n\<close> is the length of the plan, and
  otherwise the call for message \<open>n\<close> is rejected and is the last.
\<close>

definition sequential :: "content list \<Rightarrow> nat \<Rightarrow> event list \<Rightarrow> outcome" where
  "sequential plan n tr =
     (if n = length plan then Inr (tr @ awaited plan)
      else Inl (tr @ awaited (take n plan) @ [Call (plan ! n), Rejected (plan ! n)]))"

text \<open>The chunks the splitting loop returns for an answer.\<close>

definition chunks_of :: "jsstring \<Rightarrow> jsstring list" where
  "chunks_of answer = (case split_loop [] answer of None \<Rightarrow> [] | Some answerChunks \<Rightarrow> answerChunks)"

text \<open>
  The messages the handlers send for record \<open>i\<close>, in the order of the source, and for
  all records.
\<close>

definition header_only :: "nat \<Rightarrow> jsstring \<Rightarrow> jsstring" where
  "header_only i question =
     lit ''\<newline>'' @ toString (i + 1) @ lit ''. '' @ question @ lit ''\<newline>\<newline>Answer (part 1):''"

definition discord_fragments :: "jsstring list \<Rightarrow> nat \<Rightarrow> jsstring \<Rightarrow> jsstring \<Rightarrow> content list" where
  "discord_fragments questions i question answer =
     (if length (lit ''\<newline>'' @ toString (i + 1) @ lit ''. '' @ question
                 @ lit ''\<newline>\<newline>'' @ lit ''Answer: '' @ answer) > DISCORD_MAX_LENGTH
      then discord (header_only i question)
           # map (\<lambda>j. discord ((if j = 0 then []
                                  else lit ''Answer (part '' @ toString (j + 1) @ lit ''): '')
                                 @ chunks_of answer ! j))
               [0 ..< length (chunks_of answer)]
      else [discord (lit ''\<newline>'' @ toString (i + 1) @ lit ''. '' @ question
                     @ lit ''\<newline>\<newline>'' @ lit ''Answer: '' @ answer)])
     @ (if int i < int (length questions) - 1 then [discord (lit ''---'')] else [])"

definition telegram_fragments :: "nat \<Rightarrow> jsstring \<Rightarrow> jsstring \<Rightarrow> content list" where
  "telegram_fragments i question answer =
     (let paragraphs = filter (\<lambda>p. length (trim p) > 0) (split answer (lit ''\<newline>\<newline>''))
      in if length paragraphs = 0
         then [telegram (lit ''\<newline>'' @ toString (i + 1) @ lit ''. '' @ question
                         @ lit ''\<newline>\<newline>Answer: '' @ answer)]
         else telegram (lit ''\<newline>'' @ toString (i + 1) @ lit ''. '' @ question
                        @ lit ''\<newline>\<newline>Answer: '' @ paragraphs ! 0)
              # map (\<lambda>j. telegram (lit ''Continuation: '' @ paragraphs ! j))
                  [1 ..< length paragraphs])"

definition telegram_plan :: "jsstring list \<Rightarrow> jsstring list \<Rightarrow> content list" where
  "telegram_plan questions answers =
     concat (map (\<lambda>i. telegram_fragments i (questions ! i) (answers ! i))
       [0 ..< min (length questions) (length answers)])"

definition discord_plan :: "jsstring list \<Rightarrow> jsstring list \<Rightarrow> content list" where
  "discord_plan questions answers =
     discord discord_header #
     concat (map (\<lambda>i. discord_fragments questions i (questions ! i) (answers ! i))
       [0 ..< min (length questions) (length answers)])"

text \<open>
  A callback whose promise is always fulfilled, one whose promise is always rejected, with
  the error message \<open>timeout\<close>; inputs used below.
\<close>

definition always_fulfils :: callback where
  "always_fulfils tr c = True"

definition always_rejects :: callback where
  "always_rejects tr c = False"

definition timeout_message :: rejection where
  "timeout_message t = lit ''timeout''"

definition long_question :: jsstring where
  "long_question = replicate 1900 0x71"

definition two_questions :: "jsstring list" where
  "two_questions = [lit ''Q1'', lit ''Q2'']"

definition two_answers :: "jsstring list" where
  "two_answers = [lit ''p1\<newline>\<newline>p2'', lit ''A2'']"

text \<open>
  The records the send loop visits: \<open>questions[i]\<close> with \<open>answers[i]\<close> for
  \<open>i < Math.min(questions.length, answers.length)\<close>.
\<close>

definition records :: "jsstring list \<times> jsstring list \<Rightarrow> (jsstring \<times> jsstring) list" where
  "records qa =
     map (\<lambda>i. (fst qa ! i, snd qa ! i)) [0 ..< min (length (fst qa)) (length (snd qa))]"


text \<open>
  What the scan of one group leaves: whether it yields a question and an answer (the
  tests before the two \<open>push\<close> calls), and which.
\<close>

definition yields_question :: "jsstring \<Rightarrow> bool" where
  "yields_question pair \<longleftrightarrow> currentQuestion (scan_pair pair) \<noteq> []"

definition yields_answer :: "jsstring \<Rightarrow> bool" where
  "yields_answer pair \<longleftrightarrow> currentAnswerLines (scan_pair pair) \<noteq> []"

definition pair_question :: "jsstring \<Rightarrow> jsstring" where
  "pair_question pair = currentQuestion (scan_pair pair)"

definition pair_answer :: "jsstring \<Rightarrow> jsstring" where
  "pair_answer pair = join (currentAnswerLines (scan_pair pair)) (lit ''\<newline>\<newline>'')"

text \<open>
  A group with a tag line: one of its lines starts with the tag. \<open>both_tagged\<close> is the
  specification's "group containing both a question and an answer tag".
\<close>

definition has_tag_line :: "jsstring \<Rightarrow> jsstring \<Rightarrow> bool" where
  "has_tag_line tag pair =
     list_ex (\<lambda>line. startsWith line tag) (split (trim pair) (lit ''\<newline>''))"

definition both_tagged :: "jsstring \<Rightarrow> bool" where
  "both_tagged pair \<longleftrightarrow>
     has_tag_line (lit ''QUESTION_'') pair \<and> has_tag_line (lit ''ANSWER_'') pair"

text \<open>
  The lines of a group, and what each line gives: the text of a tag line is the trimmed
  second field when that field is not empty; a \<open>QUESTION_\<close> line gives its text as a
  question; an \<open>ANSWER_\<close> line gives its text, and a line with neither tag that is not
  blank gives itself trimmed, as a part of the answer. The questions of a group are what
  its \<open>QUESTION_\<close> lines give; the answer parts are what the lines from the first
  \<open>ANSWER_\<close> line on give.
\<close>

definition pair_lines :: "jsstring \<Rightarrow> jsstring list" where
  "pair_lines pair = split (trim pair) (lit ''\<newline>'')"

definition tag_text :: "jsstring \<Rightarrow> jsstring list" where
  "tag_text line =
     (case field1 line of
        None \<Rightarrow> []
      | Some t \<Rightarrow> if t \<noteq> [] then [trim t] else [])"

definition question_part :: "jsstring \<Rightarrow> jsstring list" where
  "question_part line = (if startsWith line (lit ''QUESTION_'') then tag_text line else [])"

definition answer_part :: "jsstring \<Rightarrow> jsstring list" where
  "answer_part line =
     (if startsWith line (lit ''QUESTION_'') then []
      else if startsWith line (lit ''ANSWER_'') then tag_text line
      else if trim line \<noteq> [] then [trim line]
      else [])"

definition question_texts :: "jsstring \<Rightarrow> jsstring list" where
  "question_texts pair = concat (map question_part (pair_lines pair))"

definition answer_texts :: "jsstring \<Rightarrow> jsstring list" where
  "answer_texts pair =
     concat (map answer_part
       (dropWhile (\<lambda>line. \<not> startsWith line (lit ''ANSWER_'')) (pair_lines pair)))"

text \<open>
  Standard outputs of the pipeline: one with two complete groups and a group of noise,
  one with a group that has only a question and a group that has only an answer, one
  with a block that has no tag at all, one that stops before the end marker.
\<close>

definition good_block :: jsstring where
  "good_block =
     lit ''QUESTION_1:::Q1\<newline>ANSWER_1:::A1\<newline>---\<newline>noise\<newline>---\<newline>QUESTION_2:::Q2\<newline>ANSWER_2:::A2\<newline>more\<newline>---''"

definition good_stdout :: jsstring where
  "good_stdout =
     lit ''Processing...\<newline>'' @ results_start ''TELEGRAM'' @ good_block @ results_end ''TELEGRAM''
     @ lit ''\<newline>''"

definition orphan_block :: jsstring where
  "orphan_block = lit ''QUESTION_1:::Q1\<newline>---\<newline>ANSWER_2:::A2\<newline>---''"

definition orphan_stdout :: jsstring where
  "orphan_stdout =
     lit ''Processing...\<newline>'' @ results_start ''TELEGRAM'' @ orphan_block @ results_end ''TELEGRAM''
     @ lit ''\<newline>''"

definition noise_stdout :: jsstring where
  "noise_stdout =
     lit ''Processing...\<newline>'' @ results_start ''TELEGRAM'' @ lit ''no patterns'' @ results_end ''TELEGRAM''
     @ lit ''\<newline>''"

definition truncated_stdout :: jsstring where
  "truncated_stdout =
     lit ''Processing...\<newline>'' @ results_start ''TELEGRAM''
     @ lit ''QUESTION_1:::Q1\<newline>ANSWER_1:::A1\<newline>---\<newline>Traceback''"

text \<open>
  Blocks: one with \<open>---\<close> inside the question line, one group with two answer lines,
  and the group of the specification's scenario A.
\<close>

definition dash_block :: jsstring where
  "dash_block = lit ''QUESTION_1:::a---b\<newline>ANSWER_1:::c''"

definition two_answer_block :: jsstring where
  "two_answer_block = lit ''QUESTION_1:::Q\<newline>ANSWER_1:::first\<newline>ANSWER_2:::second''"

definition scenario_block :: jsstring where
  "scenario_block = lit ''QUESTION_1:::What caused X?\<newline>ANSWER_1:::Because Y.''"


section \<open>Properties of the string primitives\<close>

lemma lit_simps: "lit [] = []" "lit (c # s) = of_nat (of_char c) # lit s"
  by (simp_all add: lit_def)

lemma lit_nonempty [simp]: "lit (c # s) \<noteq> []"
  by (simp add: lit_def)

lemma startsWith_length: "startsWith s p \<Longrightarrow> length p \<le> length s"
proof -
  assume "startsWith s p"
  then have "length (take (length p) s) = length p" by (simp add: startsWith_def)
  then show ?thesis by simp
qed

lemma occurs_at_bound: "p \<noteq> [] \<Longrightarrow> occurs_at s p k \<Longrightarrow> k + length p \<le> length s"
  unfolding occurs_at_def by (drule startsWith_length) (cases p, auto)

lemma occurs_at_Cons_0: "occurs_at (c # cs) p 0 = startsWith (c # cs) p"
  by (simp add: occurs_at_def)

lemma occurs_at_Cons_Suc: "occurs_at (c # cs) p (Suc k) = occurs_at cs p k"
  by (simp add: occurs_at_def)

lemma occurs_at_Nil: "p \<noteq> [] \<Longrightarrow> \<not> occurs_at [] p k"
  by (auto simp: occurs_at_def startsWith_def)

lemma occurs_at_first:
  assumes "p \<noteq> []" "occurs_at s p j"
  shows "j < length s \<and> s ! j = hd p"
proof -
  from assms(2) have t: "take (length p) (drop j s) = p" by (simp add: occurs_at_def startsWith_def)
  have lt: "j < length s" using occurs_at_bound [OF assms] assms(1) by (cases p) auto
  then have "drop j s = s ! j # drop (Suc j) s" by (simp add: Cons_nth_drop_Suc)
  with t assms(1) show ?thesis using lt by (cases p) auto
qed

subsection \<open>\<open>lastIndexOf\<close> returns the last occurrence\<close>

lemma lastIndexOf_from_none:
  "p \<noteq> [] \<Longrightarrow> (\<And>j. \<not> occurs_at s p j) \<Longrightarrow> lastIndexOf_from s p k found = found"
proof (induction s arbitrary: k found)
  case Nil
  then show ?case by simp
next
  case (Cons c cs)
  have "\<not> startsWith (c # cs) p" using Cons.prems(2) [of 0] by (simp add: occurs_at_Cons_0)
  moreover have "\<And>j. \<not> occurs_at cs p j" using Cons.prems(2) [of "Suc _"] by (simp add: occurs_at_Cons_Suc)
  ultimately show ?case using Cons.IH [OF Cons.prems(1)] by simp
qed

lemma lastIndexOf_from_last:
  "p \<noteq> [] \<Longrightarrow> occurs_at s p j \<Longrightarrow> (\<And>j'. j < j' \<Longrightarrow> \<not> occurs_at s p j')
     \<Longrightarrow> lastIndexOf_from s p k found = int (k + j)"
proof (induction s arbitrary: k found j)
  case Nil
  then show ?case by (simp add: occurs_at_Nil)
next
  case (Cons c cs)
  show ?case
  proof (cases j)
    case 0
    have st: "startsWith (c # cs) p" using Cons.prems(2) 0 by (simp add: occurs_at_Cons_0)
    have "\<And>j. \<not> occurs_at cs p j" using Cons.prems(3) [of "Suc _"] 0 by (simp add: occurs_at_Cons_Suc)
    then show ?thesis using st 0 lastIndexOf_from_none [OF Cons.prems(1)] by simp
  next
    case (Suc j0)
    have o: "occurs_at cs p j0" using Cons.prems(2) Suc by (simp add: occurs_at_Cons_Suc)
    have "\<And>j'. j0 < j' \<Longrightarrow> \<not> occurs_at cs p j'"
      using Cons.prems(3) [of "Suc _"] Suc by (simp add: occurs_at_Cons_Suc)
    then show ?thesis using Cons.IH [OF Cons.prems(1) o] Suc by simp
  qed
qed

lemma lastIndexOf_none: "p \<noteq> [] \<Longrightarrow> (\<And>j. \<not> occurs_at s p j) \<Longrightarrow> lastIndexOf s p = - 1"
  unfolding lastIndexOf_def by (rule lastIndexOf_from_none)

lemma lastIndexOf_last:
  "p \<noteq> [] \<Longrightarrow> occurs_at s p j \<Longrightarrow> (\<And>j'. j < j' \<Longrightarrow> \<not> occurs_at s p j')
     \<Longrightarrow> lastIndexOf s p = int j"
  unfolding lastIndexOf_def using lastIndexOf_from_last [of p s j 0 "- 1"] by simp

lemma last_occurrence:
  assumes "p \<noteq> []" "occurs_at s p j0"
  shows "\<exists>j. occurs_at s p j \<and> (\<forall>j'. occurs_at s p j' \<longrightarrow> j' \<le> j)"
proof -
  let ?S = "{j. occurs_at s p j}"
  have fin: "finite ?S"
    by (rule finite_subset [of _ "{.. length s}"]) (use assms(1) in \<open>auto dest: occurs_at_bound\<close>)
  have ne: "?S \<noteq> {}" using assms by auto
  have "Max ?S \<in> ?S" using fin ne by (rule Max_in)
  moreover have "\<forall>j'. occurs_at s p j' \<longrightarrow> j' \<le> Max ?S" using fin by simp
  ultimately show ?thesis by blast
qed

lemma lastIndexOf_cases:
  assumes "p \<noteq> []"
  shows "(lastIndexOf s p = - 1 \<and> (\<forall>j. \<not> occurs_at s p j)) \<or>
         (\<exists>j. lastIndexOf s p = int j \<and> occurs_at s p j \<and> (\<forall>j'. occurs_at s p j' \<longrightarrow> j' \<le> j))"
proof (cases "\<exists>j. occurs_at s p j")
  case False
  then show ?thesis using lastIndexOf_none [OF assms, of s] by simp
next
  case True
  then obtain j0 where "occurs_at s p j0" ..
  from last_occurrence [OF assms this] obtain j
    where j: "occurs_at s p j" "\<forall>j'. occurs_at s p j' \<longrightarrow> j' \<le> j" by blast
  then have "lastIndexOf s p = int j"
    using lastIndexOf_last [OF assms j(1)] by (meson not_less)
  then show ?thesis using j by blast
qed

lemma lastIndexOf_less:
  assumes "p \<noteq> []"
  shows "lastIndexOf s p < int (length s)"
  using lastIndexOf_cases [OF assms, of s]
proof (elim disjE exE conjE)
  fix j assume "lastIndexOf s p = int j" "occurs_at s p j"
  then show ?thesis using occurs_at_bound [OF assms, of s j] assms by (cases p) auto
qed simp

lemma lastIndexOf_absent: "p \<noteq> [] \<Longrightarrow> hd p \<notin> set s \<Longrightarrow> lastIndexOf s p = - 1"
proof (rule lastIndexOf_none)
  fix j assume "p \<noteq> []" "hd p \<notin> set s"
  then show "\<not> occurs_at s p j" using occurs_at_first [of p s j] by (metis nth_mem)
qed

lemma lastIndexOf_at:
  assumes "p \<noteq> []" "hd p \<notin> set (tl p @ ys)"
  shows "lastIndexOf (xs @ p @ ys) p = int (length xs)"
proof (rule lastIndexOf_last [OF assms(1)])
  show "occurs_at (xs @ p @ ys) p (length xs)" by (simp add: occurs_at_def startsWith_def)
next
  fix j' assume lt: "length xs < j'"
  show "\<not> occurs_at (xs @ p @ ys) p j'"
  proof
    assume "occurs_at (xs @ p @ ys) p j'"
    from occurs_at_first [OF assms(1) this]
    have a: "j' < length (xs @ p @ ys)" "(xs @ p @ ys) ! j' = hd p" by auto
    have eq: "p @ ys = hd p # (tl p @ ys)" using assms(1) by (cases p) auto
    obtain k where k: "j' = length xs + Suc k" using lt by (metis less_imp_Suc_add add_Suc_right)
    have "(xs @ p @ ys) ! j' = (p @ ys) ! Suc k" using k by (simp add: nth_append)
    also have "\<dots> = (tl p @ ys) ! k" by (subst eq) simp
    finally have "(xs @ p @ ys) ! j' = (tl p @ ys) ! k" .
    moreover have "k < length (tl p @ ys)" using a(1) k assms(1) by (cases p) auto
    ultimately have "hd p \<in> set (tl p @ ys)" using a(2) by (metis nth_mem)
    with assms(2) show False by simp
  qed
qed

subsection \<open>\<open>trim\<close> removes white space at both ends and nothing else\<close>

lemma trim_decomp: "\<exists>lead trail. s = lead @ trim s @ trail \<and> all_ws lead \<and> all_ws trail"
proof -
  let ?l = "takeWhile isWhiteSpace s"
  let ?m = "dropWhile isWhiteSpace s"
  let ?t = "rev (takeWhile isWhiteSpace (rev ?m))"
  have 1: "s = ?l @ ?m" by simp
  have "?m = rev (takeWhile isWhiteSpace (rev ?m) @ dropWhile isWhiteSpace (rev ?m))"
    by (simp only: takeWhile_dropWhile_id rev_rev_ident)
  also have "\<dots> = rev (dropWhile isWhiteSpace (rev ?m)) @ rev (takeWhile isWhiteSpace (rev ?m))"
    by (rule rev_append)
  finally have 2: "?m = trim s @ ?t" by (simp only: trim_def)
  have 3: "all_ws ?l" unfolding all_ws_def list_all_iff by (auto dest: set_takeWhileD)
  have 4: "all_ws ?t" unfolding all_ws_def list_all_iff by (auto dest: set_takeWhileD)
  have "s = ?l @ trim s @ ?t" using 1 2 by metis
  with 3 4 show ?thesis by blast
qed

lemma length_trim: "length (trim s) \<le> length s"
proof -
  obtain lead trail where "s = lead @ trim s @ trail" using trim_decomp by blast
  then have "length s = length lead + length (trim s) + length trail"
    by (metis length_append add.assoc)
  then show ?thesis by simp
qed

lemma trim_replicate: "\<not> isWhiteSpace c \<Longrightarrow> trim (replicate n c) = replicate n c"
  by (cases n) (simp_all add: trim_def replicate_append_same [symmetric] del: replicate_Suc)

lemma trim_ws_Cons: "isWhiteSpace w \<Longrightarrow> trim (w # s) = trim s"
  by (simp add: trim_def)

section \<open>The splitting loop of the Discord handler\<close>

lemma chunkSize_val: "chunkSize = 1850"
  by (simp add: chunkSize_def DISCORD_MAX_LENGTH_def)

lemma next_chunk_take:
  "\<exists>m. next_chunk r = take m r \<and> m \<le> chunkSize \<and> (r \<noteq> [] \<longrightarrow> 0 < m) \<and>
       (m = chunkSize \<or> chunkSize < length r \<and> 7 * chunkSize < 10 * (m - 1))"
proof (cases "length r > chunkSize")
  case False
  then show ?thesis
    by (intro exI [of _ chunkSize]) (simp add: next_chunk_def Let_def chunkSize_val)
next
  case True
  let ?chunk = "take chunkSize r"
  let ?b = "max (lastIndexOf ?chunk (lit ''. '')) (lastIndexOf ?chunk (lit ''\<newline>''))"
  have lt: "?b < int chunkSize"
    using lastIndexOf_less [of "lit ''. ''" ?chunk] lastIndexOf_less [of "lit ''\<newline>''" ?chunk] True
    by simp
  show ?thesis
  proof (cases "10 * ?b > 7 * int chunkSize")
    case False
    then have "next_chunk r = take chunkSize r" using True by (simp add: next_chunk_def Let_def)
    then show ?thesis by (intro exI [of _ chunkSize]) (simp add: chunkSize_val)
  next
    case big: True
    then have "next_chunk r = take (nat (?b + 1)) ?chunk" using True by (simp add: next_chunk_def Let_def)
    moreover have "nat (?b + 1) \<le> chunkSize" using lt by linarith
    ultimately have "next_chunk r = take (nat (?b + 1)) r" by (simp add: min_absorb2)
    moreover have "0 < nat (?b + 1)" using big by linarith
    moreover have "7 * chunkSize < 10 * (nat (?b + 1) - 1)" using big by linarith
    ultimately show ?thesis using \<open>nat (?b + 1) \<le> chunkSize\<close> True by blast
  qed
qed

lemma next_chunk_nonempty: "r \<noteq> [] \<Longrightarrow> next_chunk r \<noteq> []"
  using next_chunk_take [of r] by (cases r) auto

lemma next_chunk_length: "length (next_chunk r) \<le> chunkSize"
  using next_chunk_take [of r] by auto

lemma next_chunk_prefix: "r = next_chunk r @ drop (length (next_chunk r)) r"
proof -
  obtain m where "next_chunk r = take m r" using next_chunk_take by blast
  then show ?thesis by (metis append_take_drop_id length_take min.commute take_take take_all_iff linorder_le_cases min_def)
qed

lemma next_chunk_cut_length:
  "length (next_chunk r) = min chunkSize (length r) \<or>
   7 * chunkSize < 10 * (length (next_chunk r) - 1)"
proof -
  obtain m where m: "next_chunk r = take m r" "m \<le> chunkSize"
    "m = chunkSize \<or> chunkSize < length r \<and> 7 * chunkSize < 10 * (m - 1)"
    using next_chunk_take [of r] by blast
  from m(3) show ?thesis
  proof
    assume "m = chunkSize"
    then show ?thesis using m(1) by (simp add: min.commute)
  next
    assume a: "chunkSize < length r \<and> 7 * chunkSize < 10 * (m - 1)"
    then have "length (next_chunk r) = m" using m(1,2) by simp
    then show ?thesis using a by simp
  qed
qed

lemma short_chunk: "length r \<le> chunkSize \<Longrightarrow> next_chunk r = r"
  by (simp add: next_chunk_def Let_def)

lemma rest_shorter:
  "r \<noteq> [] \<Longrightarrow> length (trim (drop (length (next_chunk r)) r)) < length r"
proof -
  assume "r \<noteq> []"
  then have "0 < length (next_chunk r)" using next_chunk_nonempty by simp
  moreover have "length (trim (drop (length (next_chunk r)) r)) \<le> length r - length (next_chunk r)"
    using length_trim [of "drop (length (next_chunk r)) r"] by simp
  moreover have "0 < length r" using \<open>r \<noteq> []\<close> by simp
  ultimately show ?thesis by linarith
qed

lemma split_loop_Nil: "split_loop acc [] = Some acc"
  by (subst split_loop.simps) simp

lemma split_loop_step:
  "r \<noteq> [] \<Longrightarrow> split_loop acc r =
     split_loop (acc @ [next_chunk r]) (trim (drop (length (next_chunk r)) r))"
  by (subst split_loop.simps) (simp add: Let_def)

text \<open>
  The loop returns, and what it returns: chunks that are not empty, of at most
  \<open>chunkSize\<close> code units each, which are consecutive pieces of the answer separated by
  white space only.
\<close>

lemma split_loop_result:
  "\<exists>cs ws t. split_loop acc r = Some (acc @ cs) \<and> length ws = length cs \<and>
      list_all all_ws ws \<and> all_ws t \<and> r = weave cs ws @ t \<and>
      list_all (\<lambda>c. c \<noteq> [] \<and> length c \<le> chunkSize) cs \<and> (r \<noteq> [] \<longrightarrow> cs \<noteq> [])"
proof (induction "length r" arbitrary: r acc rule: less_induct)
  case less
  show ?case
  proof (cases "r = []")
    case True
    then show ?thesis
      by (intro exI [of _ "[]"]) (simp add: split_loop_Nil all_ws_def)
  next
    case False
    let ?c = "next_chunk r"
    let ?d = "drop (length ?c) r"
    let ?r' = "trim ?d"
    obtain lead trail where d: "?d = lead @ ?r' @ trail" "all_ws lead" "all_ws trail"
      using trim_decomp [of ?d] by blast
    from less [OF rest_shorter [OF False], of "acc @ [?c]"]
    obtain cs ws t where ih: "split_loop (acc @ [?c]) ?r' = Some ((acc @ [?c]) @ cs)"
      "length ws = length cs" "list_all all_ws ws" "all_ws t" "?r' = weave cs ws @ t"
      "list_all (\<lambda>c. c \<noteq> [] \<and> length c \<le> chunkSize) cs"
      by blast
    have r: "r = ?c @ ?d" by (rule next_chunk_prefix)
    have 1: "split_loop acc r = Some (acc @ (?c # cs))"
      using split_loop_step [OF False, of acc] ih(1) by simp
    have 2: "r = weave (?c # cs) (lead # ws) @ (t @ trail)"
    proof -
      have "r = ?c @ (lead @ (weave cs ws @ t) @ trail)" using r d(1) ih(5) by metis
      then show ?thesis by simp
    qed
    have 3: "all_ws (t @ trail)" using ih(4) d(3) by (simp add: all_ws_def)
    have 4: "list_all (\<lambda>c. c \<noteq> [] \<and> length c \<le> chunkSize) (?c # cs)"
      using ih(6) next_chunk_nonempty [OF False] next_chunk_length [of r] by simp
    show ?thesis
      apply (rule exI [of _ "?c # cs"], rule exI [of _ "lead # ws"], rule exI [of _ "t @ trail"])
      using 1 2 3 4 ih(2,3) d(2) by simp
  qed
qed

text \<open>
  C10. Every pass of the splitting loop emits a chunk that is not empty: either the hard
  cut of \<open>chunkSize\<close> code units (the whole rest when it is shorter), or a cut behind a
  breakpoint whose index is strictly greater than \<open>0.7 * chunkSize\<close>. The rest of the
  answer is strictly shorter after the pass, and the loop returns for every answer and
  every array of chunks it starts from.
\<close>

theorem split_loop_terminates:
  "(remainingAnswer \<noteq> [] \<longrightarrow>
      next_chunk remainingAnswer \<noteq> [] \<and>
      (length (next_chunk remainingAnswer) = min chunkSize (length remainingAnswer) \<or>
       7 * chunkSize < 10 * (length (next_chunk remainingAnswer) - 1)) \<and>
      length (trim (drop (length (next_chunk remainingAnswer)) remainingAnswer))
        < length remainingAnswer) \<and>
   (\<exists>result. split_loop answerChunks remainingAnswer = Some result)"
proof -
  obtain cs where "split_loop answerChunks remainingAnswer = Some (answerChunks @ cs)"
    using split_loop_result [of answerChunks remainingAnswer] by blast
  then show ?thesis
    using next_chunk_nonempty [of remainingAnswer] rest_shorter [of remainingAnswer]
      next_chunk_cut_length [of remainingAnswer] by blast
qed

text \<open>The answer with two spaces behind a full stop, evaluated.\<close>

lemma two_space_first: "next_chunk two_space_answer = replicate 1840 0x61 @ lit ''.''"
proof -
  have c: "take chunkSize two_space_answer = replicate 1840 0x61 @ lit ''. '' @ (lit '' '' @ replicate 7 0x62)"
    by (simp add: two_space_answer_def chunkSize_val lit_simps)
  have p: "lastIndexOf (take chunkSize two_space_answer) (lit ''. '') = 1840"
    unfolding c by (subst lastIndexOf_at) (simp_all add: lit_simps)
  have n: "lastIndexOf (take chunkSize two_space_answer) (lit ''\<newline>'') = - 1"
    unfolding c by (rule lastIndexOf_absent) (simp_all add: lit_simps)
  have l: "length two_space_answer > chunkSize"
    by (simp add: two_space_answer_def chunkSize_val lit_simps)
  show ?thesis
    using l unfolding next_chunk_def Let_def p n
    by (simp add: chunkSize_val two_space_answer_def lit_simps)
qed

lemma two_space_rest:
  "trim (drop (length (next_chunk two_space_answer)) two_space_answer) = replicate 100 0x62"
  unfolding two_space_first
  by (simp add: two_space_answer_def lit_simps trim_ws_Cons trim_replicate isWhiteSpace_def)

lemma two_space_chunks:
  "split_loop [] two_space_answer = Some [replicate 1840 0x61 @ lit ''.'', replicate 100 0x62]"
proof -
  have ne: "two_space_answer \<noteq> []" by (simp add: two_space_answer_def)
  have s: "next_chunk (replicate 100 0x62) = replicate 100 0x62"
    by (rule short_chunk) (simp add: chunkSize_val)
  have "split_loop [] two_space_answer = split_loop [replicate 1840 0x61 @ lit ''.''] (replicate 100 0x62)"
    by (simp only: split_loop_step [OF ne, of "[]"] two_space_first
        two_space_rest [unfolded two_space_first] append_Nil)
  also have "\<dots> = split_loop [replicate 1840 0x61 @ lit ''.'', replicate 100 0x62] []"
    by (subst split_loop_step) (simp_all add: s trim_def)
  finally show ?thesis by (simp add: split_loop_Nil)
qed

theorem split_loop_terminates_witness:
  "two_space_answer \<noteq> [] \<and>
   next_chunk two_space_answer \<noteq> [] \<and>
   length (trim (drop (length (next_chunk two_space_answer)) two_space_answer))
     < length two_space_answer \<and>
   (\<exists>result. split_loop [] two_space_answer = Some result)"
proof -
  have ne: "two_space_answer \<noteq> []" by (simp add: two_space_answer_def)
  show ?thesis using ne split_loop_terminates [of two_space_answer "[]"] by blast
qed


text \<open>
  C2 (as the code has it). The loop returns for every answer, and the answer is the chunks
  in order, each followed by a run of white space, and a final run of white space: every
  code unit of the answer that is not white space is in exactly one chunk, in its place,
  and what \<open>trim\<close> removed behind a cut is white space of any length, after a hard cut as
  well as after a breakpoint cut. The part labels are added only when the chunks are
  sent and are not part of the chunks.
\<close>

theorem chunks_reassemble:
  "\<exists>answerChunks ws t.
      split_loop [] answer = Some answerChunks \<and> length ws = length answerChunks \<and>
      list_all all_ws ws \<and> all_ws t \<and> answer = weave answerChunks ws @ t"
  using split_loop_result [of "[]" answer] by auto

theorem chunks_reassemble_witness:
  "\<exists>ws t. length ws = 2 \<and> list_all all_ws ws \<and> all_ws t \<and>
      two_space_answer = weave [replicate 1840 0x61 @ lit ''.'', replicate 100 0x62] ws @ t"
proof -
  obtain answerChunks ws t where
    r: "split_loop [] two_space_answer = Some answerChunks" "length ws = length answerChunks"
       "list_all all_ws ws" "all_ws t" "two_space_answer = weave answerChunks ws @ t"
    using chunks_reassemble [of two_space_answer] by blast
  from r(1) have "answerChunks = [replicate 1840 0x61 @ lit ''.'', replicate 100 0x62]"
    by (simp add: two_space_chunks)
  with r show ?thesis by (intro exI [of _ ws] exI [of _ t]) simp
qed

text \<open>
  C2 as stated fails: in the answer with two spaces behind the full stop at index 1840
  the first chunk is cut behind the full stop, both spaces are removed, and the two
  chunks are two code units shorter than the answer, so that putting back a single
  code unit at the cut cannot restore it.
\<close>

theorem chunks_drop_two_spaces:
  "split_loop [] two_space_answer = Some [replicate 1840 0x61 @ lit ''.'', replicate 100 0x62] \<and>
   two_space_answer = (replicate 1840 0x61 @ lit ''.'') @ lit ''  '' @ replicate 100 0x62 \<and>
   length two_space_answer =
     length (replicate 1840 (0x61 :: code_unit) @ lit ''.'') + length (replicate 100 (0x62 :: code_unit)) + 2"
  using two_space_chunks by (simp add: two_space_answer_def lit_simps)

subsection \<open>Where a chunk is cut\<close>

lemma breakPoint_cases:
  fixes chunk :: jsstring
  defines "b \<equiv> max (lastIndexOf chunk (lit ''. '')) (lastIndexOf chunk (lit ''\<newline>''))"
  shows "(b = - 1 \<and> (\<forall>k. \<not> is_breakpoint chunk k)) \<or>
         (\<exists>j. b = int j \<and> is_breakpoint chunk j \<and> (\<forall>k. is_breakpoint chunk k \<longrightarrow> k \<le> j))"
proof -
  have P: "(lastIndexOf chunk (lit ''. '') = - 1 \<and> (\<forall>j. \<not> occurs_at chunk (lit ''. '') j)) \<or>
         (\<exists>j. lastIndexOf chunk (lit ''. '') = int j \<and> occurs_at chunk (lit ''. '') j \<and>
              (\<forall>j'. occurs_at chunk (lit ''. '') j' \<longrightarrow> j' \<le> j))"
    by (rule lastIndexOf_cases) simp
  have N: "(lastIndexOf chunk (lit ''\<newline>'') = - 1 \<and> (\<forall>j. \<not> occurs_at chunk (lit ''\<newline>'') j)) \<or>
         (\<exists>j. lastIndexOf chunk (lit ''\<newline>'') = int j \<and> occurs_at chunk (lit ''\<newline>'') j \<and>
              (\<forall>j'. occurs_at chunk (lit ''\<newline>'') j' \<longrightarrow> j' \<le> j))"
    by (rule lastIndexOf_cases) simp
  from P show ?thesis
  proof (elim disjE exE conjE)
    assume p: "lastIndexOf chunk (lit ''. '') = - 1" "\<forall>j. \<not> occurs_at chunk (lit ''. '') j"
    from N show ?thesis
    proof (elim disjE exE conjE)
      assume "lastIndexOf chunk (lit ''\<newline>'') = - 1" "\<forall>j. \<not> occurs_at chunk (lit ''\<newline>'') j"
      with p show ?thesis by (simp add: b_def is_breakpoint_def)
    next
      fix j assume "lastIndexOf chunk (lit ''\<newline>'') = int j" "occurs_at chunk (lit ''\<newline>'') j"
        "\<forall>j'. occurs_at chunk (lit ''\<newline>'') j' \<longrightarrow> j' \<le> j"
      with p have "b = int j \<and> is_breakpoint chunk j \<and> (\<forall>k. is_breakpoint chunk k \<longrightarrow> k \<le> j)"
        by (simp add: b_def is_breakpoint_def)
      then show ?thesis by blast
    qed
  next
    fix i assume p: "lastIndexOf chunk (lit ''. '') = int i" "occurs_at chunk (lit ''. '') i"
        "\<forall>j'. occurs_at chunk (lit ''. '') j' \<longrightarrow> j' \<le> i"
    from N show ?thesis
    proof (elim disjE exE conjE)
      assume "lastIndexOf chunk (lit ''\<newline>'') = - 1" "\<forall>j. \<not> occurs_at chunk (lit ''\<newline>'') j"
      with p have "b = int i \<and> is_breakpoint chunk i \<and> (\<forall>k. is_breakpoint chunk k \<longrightarrow> k \<le> i)"
        by (simp add: b_def is_breakpoint_def)
      then show ?thesis by blast
    next
      fix j assume n: "lastIndexOf chunk (lit ''\<newline>'') = int j" "occurs_at chunk (lit ''\<newline>'') j"
        "\<forall>j'. occurs_at chunk (lit ''\<newline>'') j' \<longrightarrow> j' \<le> j"
      have "b = int (max i j)" using p(1) n(1) by (simp add: b_def)
      moreover have "is_breakpoint chunk (max i j)"
        using p(2) n(2) by (cases "i \<le> j") (simp_all add: is_breakpoint_def max_def)
      moreover have "\<forall>k. is_breakpoint chunk k \<longrightarrow> k \<le> max i j"
        using p(3) n(3) by (auto simp: is_breakpoint_def max_def)
      ultimately show ?thesis by blast
    qed
  qed
qed

text \<open>
  C5 (as the code has it). When more of the answer remains than \<open>chunkSize\<close> code units,
  the chunk is cut behind the last breakpoint of the candidate (the last index at which
  \<open>'. '\<close> or a line feed occurs) if and only if that index is strictly greater than
  \<open>0.7 * chunkSize\<close>; otherwise the hard cut at \<open>chunkSize\<close> is kept.
\<close>

theorem next_chunk_breakpoint:
  assumes "length remainingAnswer > chunkSize"
  shows "(\<exists>b. is_breakpoint (take chunkSize remainingAnswer) b \<and>
              (\<forall>k. is_breakpoint (take chunkSize remainingAnswer) k \<longrightarrow> k \<le> b) \<and>
              7 * chunkSize < 10 * b \<and>
              next_chunk remainingAnswer = take (b + 1) remainingAnswer) \<or>
         ((\<forall>k. is_breakpoint (take chunkSize remainingAnswer) k \<longrightarrow> 10 * k \<le> 7 * chunkSize) \<and>
          next_chunk remainingAnswer = take chunkSize remainingAnswer)"
proof -
  let ?chunk = "take chunkSize remainingAnswer"
  let ?b = "max (lastIndexOf ?chunk (lit ''. '')) (lastIndexOf ?chunk (lit ''\<newline>''))"
  have nc: "next_chunk remainingAnswer =
      (if 10 * ?b > 7 * int chunkSize then take (nat (?b + 1)) ?chunk else ?chunk)"
    using assms by (simp add: next_chunk_def Let_def)
  from breakPoint_cases [of ?chunk] show ?thesis
  proof (elim disjE exE conjE)
    assume "?b = - 1" "\<forall>k. \<not> is_breakpoint ?chunk k"
    then show ?thesis using nc by simp
  next
    fix j assume j: "?b = int j" "is_breakpoint ?chunk j" "\<forall>k. is_breakpoint ?chunk k \<longrightarrow> k \<le> j"
    show ?thesis
    proof (cases "7 * chunkSize < 10 * j")
      case True
      have "j < chunkSize"
        using j(2) occurs_at_bound [of "lit ''. ''" ?chunk j] occurs_at_bound [of "lit ''\<newline>''" ?chunk j]
        by (auto simp: is_breakpoint_def lit_simps)
      then have "take (nat (?b + 1)) ?chunk = take (j + 1) remainingAnswer"
        using j(1) by (simp add: min_absorb2 nat_add_distrib)
      moreover have "10 * ?b > 7 * int chunkSize" using True j(1) by linarith
      ultimately have "next_chunk remainingAnswer = take (j + 1) remainingAnswer"
        using nc by simp
      with j True show ?thesis by blast
    next
      case False
      then have "\<not> 10 * ?b > 7 * int chunkSize" using j(1) by linarith
      then have "next_chunk remainingAnswer = ?chunk" using nc by simp
      moreover have "\<forall>k. is_breakpoint ?chunk k \<longrightarrow> 10 * k \<le> 7 * chunkSize"
        using j(3) False by (meson le_trans mult_le_mono2 not_less)
      ultimately show ?thesis by blast
    qed
  qed
qed

theorem next_chunk_breakpoint_witness:
  "length two_space_answer > chunkSize \<and>
   is_breakpoint (take chunkSize two_space_answer) 1840 \<and>
   next_chunk two_space_answer = take (1840 + 1) two_space_answer"
proof -
  have l: "length two_space_answer > chunkSize"
    by (simp add: two_space_answer_def chunkSize_val lit_simps)
  have c: "take chunkSize two_space_answer = replicate 1840 0x61 @ lit ''. '' @ (lit '' '' @ replicate 7 0x62)"
    by (simp add: two_space_answer_def chunkSize_val lit_simps)
  have bp: "is_breakpoint (take chunkSize two_space_answer) 1840"
    unfolding c by (simp add: is_breakpoint_def occurs_at_def startsWith_def lit_simps)
  have long: "length (next_chunk two_space_answer) \<noteq> length (take chunkSize two_space_answer)"
    unfolding two_space_first by (simp add: two_space_answer_def chunkSize_val lit_simps)
  from next_chunk_breakpoint [OF l] show ?thesis
  proof (elim disjE exE conjE)
    fix b assume b: "is_breakpoint (take chunkSize two_space_answer) b"
      "\<forall>k. is_breakpoint (take chunkSize two_space_answer) k \<longrightarrow> k \<le> b"
      "next_chunk two_space_answer = take (b + 1) two_space_answer"
    have "length (next_chunk two_space_answer) = 1841"
      by (simp add: two_space_first lit_simps)
    then have "length (take (b + 1) two_space_answer) = 1841"
      unfolding b(3) .
    then have "b = 1840" by (simp add: two_space_answer_def lit_simps split: if_splits)
    with b l bp show ?thesis by simp
  next
    assume "next_chunk two_space_answer = take chunkSize two_space_answer"
    with long show ?thesis by simp
  qed
qed

text \<open>
  C5 as stated fails on the boundary: with the last breakpoint at index 1295, which is
  equal to \<open>0.7 * 1850\<close>, the source's test \<open>breakPoint > chunkSize * 0.7\<close> is false and
  the hard cut is kept.
\<close>

lemma boundary_chunk:
  "take chunkSize boundary_answer = replicate 1295 0x61 @ lit ''. '' @ replicate 553 0x62"
  by (simp add: boundary_answer_def chunkSize_val lit_simps)

lemma boundary_period: "lastIndexOf (take chunkSize boundary_answer) (lit ''. '') = 1295"
  unfolding boundary_chunk by (subst lastIndexOf_at) (simp_all add: lit_simps)

lemma boundary_newline: "lastIndexOf (take chunkSize boundary_answer) (lit ''\<newline>'') = - 1"
  unfolding boundary_chunk by (rule lastIndexOf_absent) (simp_all add: lit_simps)

theorem breakpoint_at_threshold_not_taken:
  "length boundary_answer > chunkSize \<and>
   max (lastIndexOf (take chunkSize boundary_answer) (lit ''. ''))
       (lastIndexOf (take chunkSize boundary_answer) (lit ''\<newline>'')) = 1295 \<and>
   is_breakpoint (take chunkSize boundary_answer) 1295 \<and>
   10 * 1295 \<ge> 7 * chunkSize \<and>
   next_chunk boundary_answer = take chunkSize boundary_answer \<and>
   next_chunk boundary_answer \<noteq> take (1295 + 1) boundary_answer"
proof -
  have l: "length boundary_answer > chunkSize"
    by (simp add: boundary_answer_def chunkSize_val lit_simps)
  have bp: "is_breakpoint (take chunkSize boundary_answer) 1295"
    unfolding boundary_chunk by (simp add: is_breakpoint_def occurs_at_def startsWith_def lit_simps)
  have nc: "next_chunk boundary_answer = take chunkSize boundary_answer"
    using l unfolding next_chunk_def Let_def boundary_period boundary_newline
    by (simp add: chunkSize_val)
  have "length (take chunkSize boundary_answer) \<noteq> length (take (1295 + 1) boundary_answer)"
    by (simp add: boundary_answer_def chunkSize_val lit_simps)
  then have ne: "take chunkSize boundary_answer \<noteq> take (1295 + 1) boundary_answer" by metis
  have m: "max (lastIndexOf (take chunkSize boundary_answer) (lit ''. ''))
       (lastIndexOf (take chunkSize boundary_answer) (lit ''\<newline>'')) = 1295"
    by (simp add: boundary_period boundary_newline)
  have t: "10 * 1295 \<ge> 7 * chunkSize" by (simp add: chunkSize_val)
  have ne': "next_chunk boundary_answer \<noteq> take (1295 + 1) boundary_answer"
    using nc ne by simp
  show ?thesis by (intro conjI l m bp t nc ne')
qed

section \<open>Delivery: the loops that await the callback\<close>

lemma for_each_append:
  "for_each body (xs @ ys) tr =
     (case for_each body xs tr of Inl t \<Rightarrow> Inl t | Inr t \<Rightarrow> for_each body ys t)"
  by (induction xs arbitrary: tr) (auto split: sum.splits)

lemma for_each_map: "for_each (\<lambda>x. body (g x)) xs tr = for_each body (map g xs) tr"
  by (induction xs arbitrary: tr) (auto split: sum.splits)

lemma for_each_concat:
  "for_each (\<lambda>x. for_each body (g x)) xs tr = for_each body (concat (map g xs)) tr"
  by (induction xs arbitrary: tr) (auto simp: for_each_append split: sum.splits)

lemma for_each_opt_Some:
  "for_each_opt (\<lambda>x tr. Some (body x tr)) xs tr = Some (for_each body xs tr)"
  by (induction xs arbitrary: tr) (auto split: sum.splits)

lemma split_loop_chunks_of: "split_loop [] answer = Some (chunks_of answer)"
  using split_loop_result [of "[]" answer] by (auto simp: chunks_of_def)

lemma chunks_of_short:
  assumes "r \<noteq> []" "length r \<le> chunkSize"
  shows "chunks_of r = [r]"
proof -
  have "split_loop [] r = split_loop [r] []"
    using split_loop_step [OF assms(1), of "[]"] short_chunk [OF assms(2)] by (simp add: trim_def)
  then show ?thesis by (simp add: chunks_of_def split_loop_Nil)
qed

lemma toString_digit: "n < 10 \<Longrightarrow> toString n = [of_nat (48 + n)]"
  by (subst toString.simps) simp

text \<open>
  Each send loop of the handlers is the delivery, in order, of the messages listed by
  \<open>telegram_fragments\<close> and \<open>discord_fragments\<close>.
\<close>

lemma telegram_send_record_eq:
  "telegram_send_record cb i question answer =
     for_each (await_callback cb) (telegram_fragments i question answer)"
  by (rule ext)
    (simp add: telegram_send_record_def telegram_fragments_def Let_def for_each_map [symmetric]
      split: sum.splits)

lemma telegram_send_records_eq:
  "telegram_send_records cb questions answers tr =
     for_each (await_callback cb)
       (concat (map (\<lambda>i. telegram_fragments i (questions ! i) (answers ! i))
          [0 ..< min (length questions) (length answers)])) tr"
  by (simp add: telegram_send_records_def telegram_send_record_eq for_each_concat [symmetric])

lemma discord_send_record_eq:
  "discord_send_record cb questions i question answer =
     (\<lambda>tr. Some (for_each (await_callback cb) (discord_fragments questions i question answer) tr))"
  by (rule ext)
    (simp add: discord_send_record_def discord_fragments_def header_only_def Let_def
      split_loop_chunks_of for_each_map [symmetric] for_each_append split: sum.splits)

lemma discord_send_records_eq:
  "discord_send_records cb questions answers tr =
     Some (for_each (await_callback cb)
       (discord discord_header #
        concat (map (\<lambda>i. discord_fragments questions i (questions ! i) (answers ! i))
          [0 ..< min (length questions) (length answers)])) tr)"
  by (simp add: discord_send_records_def discord_send_record_eq for_each_opt_Some
      for_each_concat [symmetric] split: sum.splits)

lemma awaited_append: "awaited (xs @ ys) = awaited xs @ awaited ys"
  by (simp add: awaited_def)

text \<open>
  A sequence of awaited calls, one after the other: every call is settled before the next
  one is made, and the first rejection is the last event.
\<close>

lemma for_each_await_Cons:
  "for_each (await_callback (Some f)) (c # cs) tr =
     (if f tr c then for_each (await_callback (Some f)) cs (tr @ [Call c, Fulfilled c])
      else Inl (tr @ [Call c, Rejected c]))"
  by (simp add: await_callback_def)

lemma for_each_await:
  "\<exists>n \<le> length cs.
     for_each (await_callback (Some f)) cs tr =
       (if n = length cs then Inr (tr @ awaited cs)
        else Inl (tr @ awaited (take n cs) @ [Call (cs ! n), Rejected (cs ! n)]))"
proof (induction cs arbitrary: tr)
  case Nil
  then show ?case by (simp add: awaited_def)
next
  case (Cons c cs)
  show ?case
  proof (cases "f tr c")
    case False
    then show ?thesis
      by (intro exI [of _ 0]) (simp add: for_each_await_Cons awaited_def del: for_each.simps)
  next
    case True
    obtain n where n: "n \<le> length cs"
      "for_each (await_callback (Some f)) cs (tr @ [Call c, Fulfilled c]) =
         (if n = length cs then Inr ((tr @ [Call c, Fulfilled c]) @ awaited cs)
          else Inl ((tr @ [Call c, Fulfilled c]) @ awaited (take n cs) @ [Call (cs ! n), Rejected (cs ! n)]))"
      using Cons.IH [of "tr @ [Call c, Fulfilled c]"] by blast
    show ?thesis
      using n True
      by (intro exI [of _ "Suc n"]) (simp add: for_each_await_Cons awaited_def del: for_each.simps)
  qed
qed

lemma for_each_await_None: "for_each (await_callback None) cs tr = Inr tr"
  by (induction cs) (simp_all add: await_callback_def)

lemma calls_append: "calls (xs @ ys) = calls xs @ calls ys"
  by (induction xs rule: calls.induct) simp_all

lemma calls_awaited: "calls (awaited cs) = cs"
  by (induction cs) (simp_all add: awaited_def)

lemma for_each_calls:
  "\<exists>n \<le> length cs. calls (trace_of (for_each (await_callback cb) cs tr)) = calls tr @ take n cs"
proof (cases cb)
  case None
  then show ?thesis by (intro exI [of _ 0]) (simp add: for_each_await_None)
next
  case (Some f)
  obtain n where n: "n \<le> length cs"
    "for_each (await_callback (Some f)) cs tr =
       (if n = length cs then Inr (tr @ awaited cs)
        else Inl (tr @ awaited (take n cs) @ [Call (cs ! n), Rejected (cs ! n)]))"
    using for_each_await [of cs f tr] by blast
  show ?thesis
  proof (cases "n = length cs")
    case True
    then show ?thesis using n Some
      by (intro exI [of _ n]) (simp add: calls_append calls_awaited)
  next
    case False
    then have "n < length cs" using n(1) by simp
    then have "take (Suc n) cs = take n cs @ [cs ! n]" by (simp add: take_Suc_conv_app_nth)
    then show ?thesis using n Some False \<open>n < length cs\<close>
      by (intro exI [of _ "Suc n"]) (simp add: calls_append calls_awaited)
  qed
qed

text \<open>The plan of the Telegram loop lists the fragments of the records, numbered from 0.\<close>

lemma telegram_plan_records:
  "telegram_plan questions answers =
     concat (map (\<lambda>(i, question, answer). telegram_fragments i question answer)
       (enumerate 0 (records (questions, answers))))"
proof -
  let ?n = "min (length questions) (length answers)"
  have "enumerate 0 (records (questions, answers)) =
      map (\<lambda>i. (i, questions ! i, answers ! i)) [0 ..< ?n]"
    by (simp add: records_def enumerate_eq_zip zip_map2 zip_same_conv_map)
  then show ?thesis by (simp add: telegram_plan_def o_def)
qed

text \<open>The Discord handler returns: its splitting loop always exits.\<close>

lemma discord_try_returns: "\<exists>r. discord_try cb stdout tr = Some r"
  by (simp add: discord_try_def discord_send_records_eq Let_def split: option.splits)

lemma discord_results_returns: "\<exists>r. discord_results cb error_message stdout tr = Some r"
  using discord_try_returns [of cb stdout tr]
  by (auto simp: discord_results_def split: sum.splits)

text \<open>
  C9. With a callback present, whatever it answers: the Telegram loop and the Discord
  loop deliver the messages of their plan in order, the plan being the messages of record
  0 in fragment order, then those of record 1, and so on (for Discord after the header
  message, and with each \<open>---\<close> separator after the record it follows). Every call is
  settled before the next call is made, so that no two calls overlap, and a rejected call
  is the last one. Hence every call for a record comes after the settlement of every
  call for the records before it.
\<close>

theorem dispatch_sequential:
  "(\<exists>n \<le> length (telegram_plan questions answers).
      telegram_send_records (Some f) questions answers tr =
        sequential (telegram_plan questions answers) n tr) \<and>
   (\<exists>n \<le> length (discord_plan questions answers).
      discord_send_records (Some f) questions answers tr =
        Some (sequential (discord_plan questions answers) n tr))"
  unfolding telegram_send_records_eq discord_send_records_eq sequential_def
    telegram_plan_def [symmetric] discord_plan_def [symmetric]
  using for_each_await [of "telegram_plan questions answers" f tr]
    for_each_await [of "discord_plan questions answers" f tr]
  by simp

lemma two_plan_telegram:
  "telegram_plan two_questions two_answers =
     [telegram (lit ''\<newline>1. Q1\<newline>\<newline>Answer: p1''),
      telegram (lit ''Continuation: p2''),
      telegram (lit ''\<newline>2. Q2\<newline>\<newline>Answer: A2'')]"
  by (simp add: telegram_plan_def two_questions_def two_answers_def telegram_fragments_def
      toString_digit split_def startsWith_def trim_def isWhiteSpace_def lit_simps upt_rec)

lemma two_plan_discord:
  "discord_plan two_questions two_answers =
     [discord discord_header,
      discord (lit ''\<newline>1. Q1\<newline>\<newline>Answer: p1\<newline>\<newline>p2''),
      discord (lit ''---''),
      discord (lit ''\<newline>2. Q2\<newline>\<newline>Answer: A2'')]"
  by (simp add: discord_plan_def two_questions_def two_answers_def discord_fragments_def
      toString_digit DISCORD_MAX_LENGTH_def lit_simps upt_rec)

theorem dispatch_sequential_witness:
  "(\<exists>n \<le> 3. telegram_send_records (Some always_fulfils) two_questions two_answers [] =
      sequential
        [telegram (lit ''\<newline>1. Q1\<newline>\<newline>Answer: p1''),
         telegram (lit ''Continuation: p2''),
         telegram (lit ''\<newline>2. Q2\<newline>\<newline>Answer: A2'')] n []) \<and>
   (\<exists>n \<le> 4. discord_send_records (Some always_fulfils) two_questions two_answers [] =
      Some (sequential
        [discord discord_header,
         discord (lit ''\<newline>1. Q1\<newline>\<newline>Answer: p1\<newline>\<newline>p2''),
         discord (lit ''---''),
         discord (lit ''\<newline>2. Q2\<newline>\<newline>Answer: A2'')] n []))"
proof -
  note d = dispatch_sequential [of two_questions two_answers always_fulfils "[]",
      unfolded two_plan_telegram two_plan_discord]
  have 3: "length [telegram (lit ''\<newline>1. Q1\<newline>\<newline>Answer: p1''),
         telegram (lit ''Continuation: p2''),
         telegram (lit ''\<newline>2. Q2\<newline>\<newline>Answer: A2'')] = 3" by simp
  have 4: "length [discord discord_header,
         discord (lit ''\<newline>1. Q1\<newline>\<newline>Answer: p1\<newline>\<newline>p2''),
         discord (lit ''---''),
         discord (lit ''\<newline>2. Q2\<newline>\<newline>Answer: A2'')] = 4" by simp
  show ?thesis using d unfolding 3 4 .
qed

section \<open>The length of the messages of the Discord handler\<close>

lemma toString_length: "0 < d \<Longrightarrow> n < 10 ^ d \<Longrightarrow> length (toString n) \<le> d"
proof (induction d arbitrary: n)
  case 0
  then show ?case by simp
next
  case (Suc d)
  show ?case
  proof (cases "n < 10")
    case True
    then show ?thesis by (subst toString.simps) simp
  next
    case False
    then have d: "0 < d" using Suc.prems(2) by (cases d) auto
    have "n div 10 < 10 ^ d" using Suc.prems(2) by (simp add: less_mult_imp_div_less mult.commute)
    from Suc.IH [OF d this] False show ?thesis by (subst toString.simps) simp
  qed
qed

lemma weave_length:
  "length ws = length cs \<Longrightarrow> list_all (\<lambda>c. c \<noteq> []) cs \<Longrightarrow> length cs \<le> length (weave cs ws)"
proof (induction cs ws rule: weave.induct)
  case (1 c cs w ws)
  then have "length cs \<le> length (weave cs ws)" by simp
  moreover obtain x xs where "c = x # xs" using 1(3) by (cases c) auto
  ultimately show ?case by simp
qed simp_all

lemma chunks_of_props:
  "list_all (\<lambda>c. c \<noteq> [] \<and> length c \<le> chunkSize) (chunks_of answer) \<and>
   length (chunks_of answer) \<le> length answer"
proof -
  obtain cs ws t where r: "split_loop [] answer = Some ([] @ cs)" "length ws = length cs"
    "answer = weave cs ws @ t" "list_all (\<lambda>c. c \<noteq> [] \<and> length c \<le> chunkSize) cs"
    using split_loop_result [of "[]" answer] by blast
  have cs: "chunks_of answer = cs" using r(1) by (simp add: chunks_of_def)
  have "list_all (\<lambda>c. c \<noteq> []) cs" using r(4) by (simp add: list_all_iff)
  from weave_length [OF r(2) this] have "length cs \<le> length answer" using r(3) by simp
  with r(4) cs show ?thesis by simp
qed

lemma part_label_length:
  assumes "j < 10 ^ 34 - 1"
  shows "length (lit ''Answer (part '' @ toString (j + 1) @ lit ''): '') \<le> 50"
proof -
  have "j + 1 < 10 ^ 34" using assms by simp
  then have "length (toString (j + 1)) \<le> 34" by (intro toString_length) simp_all
  then show ?thesis by (simp add: lit_def)
qed

lemma discord_fragments_bounded:
  assumes "length answer < 2 ^ 53"
  shows "list_all (\<lambda>c. c = discord (header_only i question) \<or>
                       length (msg_text c) \<le> DISCORD_MAX_LENGTH)
           (discord_fragments questions i question answer)"
proof -
  have len: "length (chunks_of answer) \<le> length answer"
    and all: "list_all (\<lambda>c. c \<noteq> [] \<and> length c \<le> chunkSize) (chunks_of answer)"
    using chunks_of_props [of answer] by auto
  have chunk: "length ((if j = 0 then [] else lit ''Answer (part '' @ toString (j + 1) @ lit ''): '')
                  @ chunks_of answer ! j) \<le> DISCORD_MAX_LENGTH"
    if j: "j < length (chunks_of answer)" for j
  proof -
    have c: "length (chunks_of answer ! j) \<le> 1850"
      using all j by (simp add: list_all_length chunkSize_val)
    have "j < 2 ^ 53" using j len assms by linarith
    moreover have "(2::nat) ^ 53 \<le> 10 ^ 34 - 1" by simp
    ultimately have "j < 10 ^ 34 - 1" by linarith
    from part_label_length [OF this] c show ?thesis
      by (cases "j = 0") (simp_all add: DISCORD_MAX_LENGTH_def)
  qed
  show ?thesis
    unfolding discord_fragments_def
    by (auto simp: list_all_iff discord_def DISCORD_MAX_LENGTH_def lit_def
        dest!: chunk [unfolded DISCORD_MAX_LENGTH_def lit_def])
qed

text \<open>
  C3 (as the code has it). For an answer within the largest string length of
  ECMAScript (\<open>2\<^sup>5\<^sup>3 - 1\<close>), every message the Discord handler sends for a record,
  except the header-only \<open>Answer (part 1):\<close> message, has at most \<open>DISCORD_MAX_LENGTH\<close>
  code units: the single message, the first chunk, every labelled chunk and the
  separator. The header-only message is not split: its length is the length of the
  question plus that of the ordinal plus 21.
\<close>

theorem discord_fragment_lengths:
  assumes "length answer < 2 ^ 53"
  shows "(\<exists>r new. discord_send_record cb questions i question answer tr = Some r \<and>
           calls (trace_of r) = calls tr @ new \<and>
           list_all (\<lambda>c. c = discord (header_only i question) \<or>
                          length (msg_text c) \<le> DISCORD_MAX_LENGTH) new) \<and>
         length (msg_text (discord (header_only i question)))
           = length question + length (toString (i + 1)) + 21"
proof -
  let ?fr = "discord_fragments questions i question answer"
  let ?r = "for_each (await_callback cb) ?fr tr"
  obtain n where n: "calls (trace_of ?r) = calls tr @ take n ?fr"
    using for_each_calls [of ?fr cb tr] by blast
  have "list_all (\<lambda>c. c = discord (header_only i question) \<or>
                       length (msg_text c) \<le> DISCORD_MAX_LENGTH) (take n ?fr)"
    using discord_fragments_bounded [OF assms, of i question questions]
    by (auto simp: list_all_iff dest: in_set_takeD)
  moreover have "length (msg_text (discord (header_only i question)))
           = length question + length (toString (i + 1)) + 21"
    by (simp add: discord_def header_only_def lit_simps)
  ultimately show ?thesis using n by (simp add: discord_send_record_eq)
qed

theorem discord_fragment_lengths_witness:
  "length two_space_answer < 2 ^ 53 \<and>
   (\<exists>r new. discord_send_record (Some always_fulfils) [lit ''Q''] 0 (lit ''Q'') two_space_answer []
               = Some r \<and>
      calls (trace_of r) = new \<and>
      list_all (\<lambda>c. c = discord (header_only 0 (lit ''Q'')) \<or>
                     length (msg_text c) \<le> DISCORD_MAX_LENGTH) new) \<and>
   length (msg_text (discord (header_only 0 (lit ''Q'')))) = 23"
proof -
  have l: "length two_space_answer < 2 ^ 53" by (simp add: two_space_answer_def lit_simps)
  show ?thesis
    using l discord_fragment_lengths [OF l, of "Some always_fulfils" "[lit ''Q'']" 0 "lit ''Q''" "[]"]
    by (simp add: toString_digit lit_simps)
qed

text \<open>
  C3 as stated fails for the header-only message: with a question of 1900 code units
  it has 1922 code units.
\<close>

theorem header_fragment_too_long:
  "discord_send_record (Some always_fulfils) [long_question] 0 long_question (lit ''x'') [] =
     Some (Inr
       [Call (discord (lit ''\<newline>1. '' @ long_question @ lit ''\<newline>\<newline>Answer (part 1):'')),
        Fulfilled (discord (lit ''\<newline>1. '' @ long_question @ lit ''\<newline>\<newline>Answer (part 1):'')),
        Call (discord (lit ''x'')),
        Fulfilled (discord (lit ''x''))]) \<and>
   length (msg_text (discord (lit ''\<newline>1. '' @ long_question @ lit ''\<newline>\<newline>Answer (part 1):'')))
     = 1922 \<and>
   DISCORD_MAX_LENGTH = 1900"
proof -
  have c: "chunks_of (lit ''x'') = [lit ''x'']"
    by (rule chunks_of_short) (simp_all add: chunkSize_val lit_simps)
  have f: "discord_fragments [long_question] 0 long_question (lit ''x'') =
      [discord (lit ''\<newline>1. '' @ long_question @ lit ''\<newline>\<newline>Answer (part 1):''),
       discord (lit ''x'')]"
    using c
    by (simp add: discord_fragments_def header_only_def toString_digit long_question_def
        DISCORD_MAX_LENGTH_def lit_simps)
  show ?thesis
    unfolding discord_send_record_eq f
    by (simp add: for_each_await_Cons always_fulfils_def long_question_def discord_def
        DISCORD_MAX_LENGTH_def lit_simps del: for_each.simps(2))
qed

section \<open>The Telegram handler: from the standard output to the records\<close>

lemma replicate_80: "replicate 80 x = [x,x,x,x,x,x,x,x,x,x, x,x,x,x,x,x,x,x,x,x, x,x,x,x,x,x,x,x,x,x, x,x,x,x,x,x,x,x,x,x,
   x,x,x,x,x,x,x,x,x,x, x,x,x,x,x,x,x,x,x,x, x,x,x,x,x,x,x,x,x,x, x,x,x,x,x,x,x,x,x,x]"
  by (simp add: numeral_eq_Suc)

lemma startsWith_Cons: "startsWith (c # cs) (p # ps) \<longleftrightarrow> c = p \<and> startsWith cs ps"
  by (auto simp: startsWith_def)

lemma startsWith_Nil: "startsWith s []" "startsWith [] (p # ps) = False"
  by (auto simp: startsWith_def)

lemmas eval_string = split_def startsWith_Cons startsWith_Nil trim_def isWhiteSpace_def lit_simps

subsection \<open>The regular expression\<close>

lemma split_at_first_Some:
  "split_at_first p before s = Some (a, b) \<Longrightarrow> \<exists>pre. a = before @ pre \<and> s = pre @ p @ b"
proof (induction s arbitrary: before)
  case Nil
  then show ?case by (auto split: if_splits)
next
  case (Cons c cs)
  show ?case
  proof (cases "startsWith (c # cs) p")
    case True
    then have "c # cs = p @ drop (length p) (c # cs)"
      by (metis append_take_drop_id startsWith_def)
    with True Cons.prems show ?thesis by auto
  next
    case False
    then have "split_at_first p (before @ [c]) cs = Some (a, b)" using Cons.prems by simp
    from Cons.IH [OF this] obtain pre where "a = (before @ [c]) @ pre" "cs = pre @ p @ b" by blast
    then show ?thesis by (intro exI [of _ "c # pre"]) simp
  qed
qed

lemma split_at_first_leftmost:
  "split_at_first p before s = Some (a, b) \<Longrightarrow> s = pre' @ p @ post'
     \<Longrightarrow> length a \<le> length before + length pre'"
proof (induction s arbitrary: before pre')
  case Nil
  then show ?case by (auto split: if_splits)
next
  case (Cons c cs)
  show ?case
  proof (cases "startsWith (c # cs) p")
    case True
    then have "a = before" using Cons.prems(1) by simp
    then show ?thesis by simp
  next
    case False
    then have r: "split_at_first p (before @ [c]) cs = Some (a, b)" using Cons.prems(1) by simp
    have "pre' \<noteq> []"
    proof
      assume "pre' = []"
      then have "startsWith (c # cs) p" using Cons.prems(2) by (simp add: startsWith_def)
      with False show False by simp
    qed
    then obtain pre'' where p: "pre' = c # pre''" "cs = pre'' @ p @ post'"
      using Cons.prems(2) by (cases pre') auto
    from Cons.IH [OF r p(2)] p(1) show ?thesis by simp
  qed
qed

lemma split_at_first_None:
  "split_at_first p before s = None \<Longrightarrow> s \<noteq> pre @ p @ post"
proof (induction s arbitrary: before pre)
  case Nil
  then show ?case by (auto split: if_splits)
next
  case (Cons c cs)
  have ns: "\<not> startsWith (c # cs) p" using Cons.prems by (auto split: if_splits)
  then have r: "split_at_first p (before @ [c]) cs = None" using Cons.prems by simp
  show ?case
  proof
    assume e: "c # cs = pre @ p @ post"
    show False
    proof (cases pre)
      case Nil
      then have "startsWith (c # cs) p" using e by (simp add: startsWith_def)
      with ns show False by simp
    next
      case (Cons x pre')
      then have "cs = pre' @ p @ post" using e by simp
      with Cons.IH r show False by blast
    qed
  qed
qed

text \<open>
  The match fails exactly when the standard output is not of the form of the regular
  expression: something, the first literal, a body, the second literal, something.
\<close>

lemma results_match_None_iff:
  "results_match marker stdout = None \<longleftrightarrow>
     \<not> (\<exists>pre body post. stdout = pre @ results_start marker @ body @ results_end marker @ post)"
proof
  assume n: "results_match marker stdout = None"
  show "\<not> (\<exists>pre body post. stdout = pre @ results_start marker @ body @ results_end marker @ post)"
  proof
    assume "\<exists>pre body post. stdout = pre @ results_start marker @ body @ results_end marker @ post"
    then obtain pre body post
      where e: "stdout = pre @ results_start marker @ body @ results_end marker @ post" by blast
    show False
    proof (cases "split_at_first (results_start marker) [] stdout")
      case None
      from split_at_first_None [OF this, of pre "body @ results_end marker @ post"] e
      show False by simp
    next
      case (Some ab)
      obtain a b where ab: "ab = (a, b)" by (cases ab)
      from split_at_first_Some [OF Some [unfolded ab]]
      have s: "stdout = a @ results_start marker @ b" by auto
      from split_at_first_leftmost [OF Some [unfolded ab], of pre "body @ results_end marker @ post"] e
      have le: "length a \<le> length pre" by simp
      have "a @ results_start marker @ b = pre @ results_start marker @ body @ results_end marker @ post"
        using s e by simp
      then have "drop (length a + length (results_start marker)) (a @ results_start marker @ b) =
        drop (length a + length (results_start marker))
          (pre @ results_start marker @ body @ results_end marker @ post)" by simp
      moreover have "length (results_start marker) = length marker + 96"
        by (simp add: results_start_def lit_def)
      ultimately have "b = drop (length a + length (results_start marker))
          ((pre @ results_start marker @ body) @ results_end marker @ post)" by simp
      also have "\<dots> = drop (length a + length (results_start marker)) (pre @ results_start marker @ body)
          @ results_end marker @ post"
        using le by simp
      finally have b: "b = drop (length a + length (results_start marker)) (pre @ results_start marker @ body)
          @ results_end marker @ post" .
      have "split_at_first (results_end marker) [] b = None"
        using n Some ab by (simp add: results_match_def split: option.splits prod.splits)
      from split_at_first_None [OF this] b show False by blast
    qed
  qed
next
  assume a: "\<not> (\<exists>pre body post. stdout = pre @ results_start marker @ body @ results_end marker @ post)"
  show "results_match marker stdout = None"
  proof (rule ccontr)
    assume "results_match marker stdout \<noteq> None"
    then obtain pre rest body post where
      1: "split_at_first (results_start marker) [] stdout = Some (pre, rest)" and
      2: "split_at_first (results_end marker) [] rest = Some (body, post)"
      by (auto simp: results_match_def split: option.splits)
    from split_at_first_Some [OF 1] split_at_first_Some [OF 2]
    have "stdout = pre @ results_start marker @ body @ results_end marker @ post" by auto
    with a show False by blast
  qed
qed

text \<open>
  C8 (as the code has it). For every standard output in which the pattern of the regular
  expression does not occur (a start marker without an end marker behind it, or no start
  marker at all), the match is \<open>null\<close>, nothing is raised, and the handler calls the
  callback with the fixed notice that the results could not be parsed. When that call is
  fulfilled it is the only call. When it is rejected, the \<open>catch\<close> block calls the
  callback once more, with the error text.
\<close>

theorem no_block_notice_sent:
  assumes "\<not> (\<exists>pre body post.
      stdout = pre @ results_start ''TELEGRAM'' @ body @ results_end ''TELEGRAM'' @ post)"
  shows "results_match ''TELEGRAM'' stdout = None \<and>
         telegram_results (Some f) error_message stdout tr =
           (if f tr (telegram no_block_notice)
            then Inr (tr @ [Call (telegram no_block_notice), Fulfilled (telegram no_block_notice)])
            else await_callback (Some f)
                   (telegram (error_notice (error_message
                      (tr @ [Call (telegram no_block_notice), Rejected (telegram no_block_notice)]))))
                   (tr @ [Call (telegram no_block_notice), Rejected (telegram no_block_notice)])) \<and>
         calls (trace_of (telegram_results (Some f) error_message stdout tr)) =
           calls tr @
           (if f tr (telegram no_block_notice) then [telegram no_block_notice]
            else [telegram no_block_notice,
                  telegram (error_notice (error_message
                    (tr @ [Call (telegram no_block_notice), Rejected (telegram no_block_notice)])))])"
proof -
  have n: "results_match ''TELEGRAM'' stdout = None"
    using assms results_match_None_iff [of "''TELEGRAM''" stdout] by blast
  then show ?thesis
    by (simp add: telegram_results_def telegram_try_def await_callback_def calls_append)
qed

lemma truncated_no_pattern:
  "\<not> (\<exists>pre body post.
      truncated_stdout = pre @ results_start ''TELEGRAM'' @ body @ results_end ''TELEGRAM'' @ post)"
proof
  assume "\<exists>pre body post.
    truncated_stdout = pre @ results_start ''TELEGRAM'' @ body @ results_end ''TELEGRAM'' @ post"
  then obtain pre body post where
    "truncated_stdout = pre @ results_start ''TELEGRAM'' @ body @ results_end ''TELEGRAM'' @ post"
    by blast
  then have "length truncated_stdout =
    length (pre @ results_start ''TELEGRAM'' @ body @ results_end ''TELEGRAM'' @ post)" by simp
  then show False
    by (simp add: truncated_stdout_def results_start_def results_end_def lit_def)
qed

theorem no_block_notice_sent_witness:
  "results_match ''TELEGRAM'' truncated_stdout = None \<and>
   telegram_results (Some always_fulfils) timeout_message truncated_stdout [] =
     Inr [Call (telegram no_block_notice), Fulfilled (telegram no_block_notice)] \<and>
   calls (trace_of (telegram_results (Some always_fulfils) timeout_message truncated_stdout [])) =
     [telegram no_block_notice]"
  using no_block_notice_sent [OF truncated_no_pattern, of always_fulfils timeout_message "[]"]
  by (simp add: always_fulfils_def)

text \<open>
  C8 as stated fails. The notice sent when there is no block is not the notice the
  handler sends for an empty set of records (\<open>no_results_notice\<close>, sent here for a block
  without any tag); and when the call is rejected the callback is called twice, the
  second time by the \<open>catch\<close> block with the error text.
\<close>

lemma truncated_None: "results_match ''TELEGRAM'' truncated_stdout = None"
  using truncated_no_pattern results_match_None_iff [of "''TELEGRAM''" truncated_stdout] by blast

lemma noise_match: "results_match ''TELEGRAM'' noise_stdout = Some (lit ''no patterns'')"
  by (simp add: results_match_def noise_stdout_def results_start_def
      results_end_def replicate_80 lit_simps startsWith_Cons startsWith_Nil)

lemma noise_parse: "parse_block (lit ''no patterns'') = ([], [])"
  by (simp add: parse_block_def qaPairs_def parse_pair_def scan_pair_def scan_line_def
      scan_init_def field1_def eval_string)

theorem no_block_notice_differs_and_repeats:
  "calls (trace_of (telegram_results (Some always_fulfils) timeout_message truncated_stdout [])) =
     [telegram no_block_notice] \<and>
   calls (trace_of (telegram_results (Some always_fulfils) timeout_message noise_stdout [])) =
     [telegram no_results_notice] \<and>
   no_block_notice \<noteq> no_results_notice \<and>
   calls (trace_of (telegram_results (Some always_rejects) timeout_message truncated_stdout [])) =
     [telegram no_block_notice, telegram (error_notice (lit ''timeout''))]"
proof -
  have 1: "calls (trace_of (telegram_results (Some always_fulfils) timeout_message truncated_stdout []))
      = [telegram no_block_notice]"
    by (simp add: telegram_results_def telegram_try_def truncated_None await_callback_def
        always_fulfils_def)
  have 2: "calls (trace_of (telegram_results (Some always_fulfils) timeout_message noise_stdout []))
      = [telegram no_results_notice]"
    by (simp add: telegram_results_def telegram_try_def noise_match noise_parse await_callback_def
        always_fulfils_def)
  have "length no_block_notice \<noteq> length no_results_notice"
    by (simp add: no_block_notice_def no_results_notice_def lit_def)
  then have 3: "no_block_notice \<noteq> no_results_notice" by metis
  have 4: "calls (trace_of (telegram_results (Some always_rejects) timeout_message truncated_stdout []))
      = [telegram no_block_notice, telegram (error_notice (lit ''timeout''))]"
    by (simp add: telegram_results_def telegram_try_def truncated_None await_callback_def
        always_rejects_def timeout_message_def)
  show ?thesis by (intro conjI 1 2 3 4)
qed

subsection \<open>The records of a block\<close>

lemma parse_fold:
  "foldl parse_pair (qs, as) pairs =
     (qs @ map pair_question (filter yields_question pairs),
      as @ map pair_answer (filter yields_answer pairs))"
  by (induction pairs arbitrary: qs as)
    (simp_all add: parse_pair_def Let_def yields_question_def yields_answer_def
      pair_question_def pair_answer_def)

lemma parse_block_eq:
  "parse_block resultsBlock =
     (map pair_question (filter yields_question (qaPairs resultsBlock)),
      map pair_answer (filter yields_answer (qaPairs resultsBlock)))"
  by (simp add: parse_block_def parse_fold)

lemma map_index: "map (\<lambda>i. (f (xs ! i), g (xs ! i))) [0 ..< length xs] = map (\<lambda>x. (f x, g x)) xs"
proof -
  have "map (\<lambda>x. (f x, g x)) xs = map (\<lambda>x. (f x, g x)) (map ((!) xs) [0 ..< length xs])"
    by (simp only: map_nth)
  also have "\<dots> = map (\<lambda>i. (f (xs ! i), g (xs ! i))) [0 ..< length xs]"
    by (simp only: map_map o_def)
  finally show ?thesis by (rule sym)
qed

subsection \<open>What a group yields, in terms of its lines\<close>

lemma answer_not_question:
  "startsWith line (lit ''ANSWER_'') \<Longrightarrow> \<not> startsWith line (lit ''QUESTION_'')"
  by (cases line) (auto simp: startsWith_Cons startsWith_Nil lit_simps)

lemma scan_line_cases:
  "currentQuestion (scan_line st line) =
     (if question_part line = [] then currentQuestion st else last (question_part line))"
  "inAnswer (scan_line st line) = (inAnswer st \<or> startsWith line (lit ''ANSWER_''))"
  "currentAnswerLines (scan_line st line) =
     currentAnswerLines st @
     (if inAnswer st \<or> startsWith line (lit ''ANSWER_'') then answer_part line else [])"
  using answer_not_question [of line]
  by (auto simp: scan_line_def question_part_def answer_part_def tag_text_def
      split: option.splits)

lemma scan_lines_question:
  "currentQuestion (foldl scan_line st lines) =
     (if concat (map question_part lines) = [] then currentQuestion st
      else last (concat (map question_part lines)))"
proof (induction lines arbitrary: st)
  case Nil
  then show ?case by simp
next
  case (Cons l ls)
  show ?case
    by (simp add: Cons.IH scan_line_cases(1))
qed

lemma scan_lines_inAnswer:
  "inAnswer st \<Longrightarrow> currentAnswerLines (foldl scan_line st lines) =
     currentAnswerLines st @ concat (map answer_part lines)"
proof (induction lines arbitrary: st)
  case Nil
  then show ?case by simp
next
  case (Cons l ls)
  have "inAnswer (scan_line st l)" using Cons.prems by (simp add: scan_line_cases(2))
  from Cons.IH [OF this] show ?case using Cons.prems by (simp add: scan_line_cases(3))
qed

lemma scan_lines_answer:
  "\<not> inAnswer st \<Longrightarrow> currentAnswerLines (foldl scan_line st lines) =
     currentAnswerLines st @
     concat (map answer_part (dropWhile (\<lambda>line. \<not> startsWith line (lit ''ANSWER_'')) lines))"
proof (induction lines arbitrary: st)
  case Nil
  then show ?case by simp
next
  case (Cons l ls)
  show ?case
  proof (cases "startsWith l (lit ''ANSWER_'')")
    case True
    then have "inAnswer (scan_line st l)" by (simp add: scan_line_cases(2))
    from scan_lines_inAnswer [OF this, of ls] True show ?thesis
      by (simp add: scan_line_cases(3))
  next
    case False
    then have "\<not> inAnswer (scan_line st l)" using Cons.prems by (simp add: scan_line_cases(2))
    from Cons.IH [OF this] False Cons.prems show ?thesis
      by (simp add: scan_line_cases(3))
  qed
qed

lemma pair_question_texts:
  "pair_question pair = (if question_texts pair = [] then [] else last (question_texts pair))"
  by (simp add: pair_question_def scan_pair_def scan_lines_question question_texts_def
      pair_lines_def scan_init_def)

lemma pair_answer_texts:
  "currentAnswerLines (scan_pair pair) = answer_texts pair"
  by (simp add: scan_pair_def scan_lines_answer answer_texts_def pair_lines_def scan_init_def)

lemma yields_question_tag: "yields_question pair \<Longrightarrow> has_tag_line (lit ''QUESTION_'') pair"
proof -
  assume "yields_question pair"
  then have "question_texts pair \<noteq> []"
    using pair_question_texts [of pair] by (auto simp: yields_question_def pair_question_def)
  then obtain line where "line \<in> set (pair_lines pair)" "question_part line \<noteq> []"
    by (auto simp: question_texts_def)
  then show ?thesis
    by (auto simp: has_tag_line_def pair_lines_def list_ex_iff question_part_def split: if_splits)
qed

lemma yields_answer_tag: "yields_answer pair \<Longrightarrow> has_tag_line (lit ''ANSWER_'') pair"
proof -
  let ?d = "dropWhile (\<lambda>line. \<not> startsWith line (lit ''ANSWER_'')) (pair_lines pair)"
  assume "yields_answer pair"
  then have "answer_texts pair \<noteq> []" by (simp add: yields_answer_def pair_answer_texts)
  then have ne: "?d \<noteq> []" unfolding answer_texts_def by (cases ?d) simp_all
  then have "startsWith (hd ?d) (lit ''ANSWER_'')" using hd_dropWhile [OF ne] by simp
  moreover have "hd ?d \<in> set (pair_lines pair)"
    using ne by (meson hd_in_set set_dropWhileD)
  ultimately show ?thesis by (auto simp: has_tag_line_def pair_lines_def list_ex_iff)
qed

lemma split_at_first_leftmost_occ:
  "split_at_first p before s = Some (a, b) \<Longrightarrow>
     \<exists>pre. a = before @ pre \<and> s = pre @ p @ b \<and> (\<forall>k < length pre. \<not> occurs_at s p k)"
proof (induction s arbitrary: before)
  case Nil
  then show ?case by (auto split: if_splits)
next
  case (Cons c cs)
  show ?case
  proof (cases "startsWith (c # cs) p")
    case True
    then have "c # cs = p @ drop (length p) (c # cs)"
      by (metis append_take_drop_id startsWith_def)
    with True Cons.prems show ?thesis by auto
  next
    case False
    then have "split_at_first p (before @ [c]) cs = Some (a, b)" using Cons.prems by simp
    from Cons.IH [OF this] obtain pre where
      pre: "a = (before @ [c]) @ pre" "cs = pre @ p @ b" "\<forall>k < length pre. \<not> occurs_at cs p k"
      by blast
    have "\<not> occurs_at (c # cs) p k" if "k < length (c # pre)" for k
    proof (cases k)
      case 0
      then show ?thesis using False by (simp add: occurs_at_Cons_0)
    next
      case (Suc k')
      then show ?thesis using pre(3) that by (simp add: occurs_at_Cons_Suc)
    qed
    then show ?thesis using pre(1,2) by (intro exI [of _ "c # pre"]) simp
  qed
qed

text \<open>
  C1 (as the code has it). When the match succeeds, the block is the text between the
  first start marker and the next end marker. Questions and answers are collected in two
  arrays and paired by position, so that the number of records is the smaller of the
  number of groups that yield a question and the number of groups that yield an answer.
  The question of a group is the text of its last \<open>QUESTION_\<close> line with a non-empty
  text; its answer is the texts of its \<open>ANSWER_\<close> lines and the untagged non-blank
  lines after the first of them, joined by blank lines; a group without a \<open>QUESTION_\<close>
  line yields no question and a group without an \<open>ANSWER_\<close> line yields no answer.
  When the groups that yield a question, and those that yield an answer, are exactly the
  groups with both tag lines, the records are as many as these groups and are their
  questions and answers, in group order: the other groups add nothing and shift nothing.
\<close>

theorem records_of_block:
  assumes "results_match ''TELEGRAM'' stdout = Some resultsBlock"
  shows "(\<exists>pre post.
            stdout = pre @ results_start ''TELEGRAM'' @ resultsBlock @ results_end ''TELEGRAM'' @ post \<and>
            (\<forall>k < length pre. \<not> occurs_at stdout (results_start ''TELEGRAM'') k) \<and>
            (\<forall>k < length resultsBlock.
               \<not> occurs_at (resultsBlock @ results_end ''TELEGRAM'' @ post) (results_end ''TELEGRAM'') k)) \<and>
         parse_block resultsBlock =
           (map pair_question (filter yields_question (qaPairs resultsBlock)),
            map pair_answer (filter yields_answer (qaPairs resultsBlock))) \<and>
         length (records (parse_block resultsBlock)) =
           min (length (filter yields_question (qaPairs resultsBlock)))
               (length (filter yields_answer (qaPairs resultsBlock))) \<and>
         (\<forall>pair.
            pair_question pair =
              (if question_texts pair = [] then [] else last (question_texts pair)) \<and>
            pair_answer pair = join (answer_texts pair) (lit ''\<newline>\<newline>'') \<and>
            yields_question pair = (pair_question pair \<noteq> []) \<and>
            yields_answer pair = (answer_texts pair \<noteq> []) \<and>
            (yields_question pair \<longrightarrow> has_tag_line (lit ''QUESTION_'') pair) \<and>
            (yields_answer pair \<longrightarrow> has_tag_line (lit ''ANSWER_'') pair)) \<and>
         ((\<forall>pair \<in> set (qaPairs resultsBlock).
             yields_question pair = both_tagged pair \<and> yields_answer pair = both_tagged pair) \<longrightarrow>
            length (records (parse_block resultsBlock)) = length (filter both_tagged (qaPairs resultsBlock)) \<and>
            records (parse_block resultsBlock) =
              map (\<lambda>pair. (pair_question pair, pair_answer pair))
                (filter both_tagged (qaPairs resultsBlock)))"
proof (intro conjI impI allI)
  from assms obtain pre rest post where
    1: "split_at_first (results_start ''TELEGRAM'') [] stdout = Some (pre, rest)" and
    2: "split_at_first (results_end ''TELEGRAM'') [] rest = Some (resultsBlock, post)"
    by (auto simp: results_match_def split: option.splits)
  from split_at_first_leftmost_occ [OF 1] split_at_first_leftmost_occ [OF 2]
  show "\<exists>pre post.
            stdout = pre @ results_start ''TELEGRAM'' @ resultsBlock @ results_end ''TELEGRAM'' @ post \<and>
            (\<forall>k < length pre. \<not> occurs_at stdout (results_start ''TELEGRAM'') k) \<and>
            (\<forall>k < length resultsBlock.
               \<not> occurs_at (resultsBlock @ results_end ''TELEGRAM'' @ post) (results_end ''TELEGRAM'') k)"
    by auto
next
  show "parse_block resultsBlock =
           (map pair_question (filter yields_question (qaPairs resultsBlock)),
            map pair_answer (filter yields_answer (qaPairs resultsBlock)))"
    by (rule parse_block_eq)
next
  show "length (records (parse_block resultsBlock)) =
           min (length (filter yields_question (qaPairs resultsBlock)))
               (length (filter yields_answer (qaPairs resultsBlock)))"
    by (simp add: records_def parse_block_eq)
next
  fix pair
  show "pair_question pair = (if question_texts pair = [] then [] else last (question_texts pair))"
    by (rule pair_question_texts)
  show "pair_answer pair = join (answer_texts pair) (lit ''\<newline>\<newline>'')"
    by (simp add: pair_answer_def pair_answer_texts)
  show "yields_question pair = (pair_question pair \<noteq> [])"
    by (simp add: yields_question_def pair_question_def)
  show "yields_answer pair = (answer_texts pair \<noteq> [])"
    by (simp add: yields_answer_def pair_answer_texts)
  show "has_tag_line (lit ''QUESTION_'') pair" if "yields_question pair"
    using that by (rule yields_question_tag)
  show "has_tag_line (lit ''ANSWER_'') pair" if "yields_answer pair"
    using that by (rule yields_answer_tag)
next
  assume a: "\<forall>pair \<in> set (qaPairs resultsBlock).
             yields_question pair = both_tagged pair \<and> yields_answer pair = both_tagged pair"
  have q: "filter yields_question (qaPairs resultsBlock) = filter both_tagged (qaPairs resultsBlock)"
    using a by (intro filter_cong) auto
  have r: "filter yields_answer (qaPairs resultsBlock) = filter both_tagged (qaPairs resultsBlock)"
    using a by (intro filter_cong) auto
  show "length (records (parse_block resultsBlock)) = length (filter both_tagged (qaPairs resultsBlock))"
    by (simp add: records_def parse_block_eq q r)
  have "records (parse_block resultsBlock) =
      map (\<lambda>i. (pair_question (filter both_tagged (qaPairs resultsBlock) ! i),
                 pair_answer (filter both_tagged (qaPairs resultsBlock) ! i)))
        [0 ..< length (filter both_tagged (qaPairs resultsBlock))]"
    by (simp add: records_def parse_block_eq q r)
  then show "records (parse_block resultsBlock) =
              map (\<lambda>pair. (pair_question pair, pair_answer pair))
                (filter both_tagged (qaPairs resultsBlock))"
    by (simp only: map_index)
qed

lemma good_match: "results_match ''TELEGRAM'' good_stdout = Some good_block"
  by (simp add: results_match_def good_stdout_def good_block_def results_start_def
      results_end_def replicate_80 lit_simps startsWith_Cons startsWith_Nil)

lemma good_pairs:
  "qaPairs good_block =
     [lit ''QUESTION_1:::Q1\<newline>ANSWER_1:::A1\<newline>'', lit ''\<newline>noise\<newline>'',
      lit ''\<newline>QUESTION_2:::Q2\<newline>ANSWER_2:::A2\<newline>more\<newline>'']"
  by (simp add: qaPairs_def good_block_def eval_string)

lemma good_scans:
  "scan_pair (lit ''QUESTION_1:::Q1\<newline>ANSWER_1:::A1\<newline>'') =
     \<lparr>currentQuestion = lit ''Q1'', currentAnswerLines = [lit ''A1''], inAnswer = True\<rparr>"
  "scan_pair (lit ''\<newline>noise\<newline>'') =
     \<lparr>currentQuestion = [], currentAnswerLines = [], inAnswer = False\<rparr>"
  "scan_pair (lit ''\<newline>QUESTION_2:::Q2\<newline>ANSWER_2:::A2\<newline>more\<newline>'') =
     \<lparr>currentQuestion = lit ''Q2'', currentAnswerLines = [lit ''A2'', lit ''more''], inAnswer = True\<rparr>"
  by (simp_all add: scan_pair_def scan_line_def scan_init_def field1_def eval_string)

lemma good_values:
  "pair_question (lit ''QUESTION_1:::Q1\<newline>ANSWER_1:::A1\<newline>'') = lit ''Q1''"
  "pair_answer (lit ''QUESTION_1:::Q1\<newline>ANSWER_1:::A1\<newline>'') = lit ''A1''"
  "pair_question (lit ''\<newline>QUESTION_2:::Q2\<newline>ANSWER_2:::A2\<newline>more\<newline>'') = lit ''Q2''"
  "pair_answer (lit ''\<newline>QUESTION_2:::Q2\<newline>ANSWER_2:::A2\<newline>more\<newline>'') = lit ''A2\<newline>\<newline>more''"
  unfolding pair_question_def pair_answer_def good_scans by (simp_all add: lit_simps)

lemma good_tagged:
  "both_tagged (lit ''QUESTION_1:::Q1\<newline>ANSWER_1:::A1\<newline>'')"
  "\<not> both_tagged (lit ''\<newline>noise\<newline>'')"
  "both_tagged (lit ''\<newline>QUESTION_2:::Q2\<newline>ANSWER_2:::A2\<newline>more\<newline>'')"
  by (simp_all add: both_tagged_def has_tag_line_def eval_string)

theorem records_of_block_witness:
  "results_match ''TELEGRAM'' good_stdout = Some good_block \<and>
   (\<exists>pre post.
      good_stdout = pre @ results_start ''TELEGRAM'' @ good_block @ results_end ''TELEGRAM'' @ post \<and>
      (\<forall>k < length pre. \<not> occurs_at good_stdout (results_start ''TELEGRAM'') k) \<and>
      (\<forall>k < length good_block.
         \<not> occurs_at (good_block @ results_end ''TELEGRAM'' @ post) (results_end ''TELEGRAM'') k)) \<and>
   length (filter both_tagged (qaPairs good_block)) = 2 \<and>
   length (records (parse_block good_block)) = 2 \<and>
   records (parse_block good_block) =
     [(lit ''Q1'', lit ''A1''), (lit ''Q2'', lit ''A2\<newline>\<newline>more'')]"
proof -
  note t = records_of_block [OF good_match]
  have same: "\<forall>pair \<in> set (qaPairs good_block).
      yields_question pair = both_tagged pair \<and> yields_answer pair = both_tagged pair"
    unfolding good_pairs
    by (simp add: yields_question_def yields_answer_def good_scans good_tagged)
  have f: "filter both_tagged (qaPairs good_block) =
     [lit ''QUESTION_1:::Q1\<newline>ANSWER_1:::A1\<newline>'',
      lit ''\<newline>QUESTION_2:::Q2\<newline>ANSWER_2:::A2\<newline>more\<newline>'']"
    unfolding good_pairs by (simp add: good_tagged)
  have 0: "length (filter both_tagged (qaPairs good_block)) = 2"
    unfolding f by simp
  have r: "length (records (parse_block good_block)) = length (filter both_tagged (qaPairs good_block))"
    "records (parse_block good_block) =
       map (\<lambda>pair. (pair_question pair, pair_answer pair)) (filter both_tagged (qaPairs good_block))"
    using t same by blast+
  have 1: "length (records (parse_block good_block)) = 2"
    by (simp only: r(1) 0)
  have 2: "records (parse_block good_block) =
     [(lit ''Q1'', lit ''A1''), (lit ''Q2'', lit ''A2\<newline>\<newline>more'')]"
    unfolding r(2) f by (simp add: good_values)
  have d: "\<exists>pre post.
      good_stdout = pre @ results_start ''TELEGRAM'' @ good_block @ results_end ''TELEGRAM'' @ post \<and>
      (\<forall>k < length pre. \<not> occurs_at good_stdout (results_start ''TELEGRAM'') k) \<and>
      (\<forall>k < length good_block.
         \<not> occurs_at (good_block @ results_end ''TELEGRAM'' @ post) (results_end ''TELEGRAM'') k)"
    using t by blast
  show ?thesis by (intro conjI good_match d 0 1 2)
qed

text \<open>
  C1 as stated fails: a group with only a question and a group with only an answer give
  one record, made of the question of the first and the answer of the second, although
  no group has both tags.
\<close>

lemma orphan_match: "results_match ''TELEGRAM'' orphan_stdout = Some orphan_block"
  by (simp add: results_match_def orphan_stdout_def orphan_block_def results_start_def
      results_end_def replicate_80 lit_simps startsWith_Cons startsWith_Nil)

lemma orphan_parse:
  "parse_block orphan_block = ([lit ''Q1''], [lit ''A2''])"
  by (simp add: parse_block_def qaPairs_def parse_pair_def scan_pair_def scan_line_def
      scan_init_def field1_def split_def orphan_block_def startsWith_Cons startsWith_Nil
      trim_def isWhiteSpace_def lit_simps)

theorem orphan_records:
  "results_match ''TELEGRAM'' orphan_stdout = Some orphan_block \<and>
   qaPairs orphan_block = [lit ''QUESTION_1:::Q1\<newline>'', lit ''\<newline>ANSWER_2:::A2\<newline>''] \<and>
   filter both_tagged (qaPairs orphan_block) = [] \<and>
   records (parse_block orphan_block) = [(lit ''Q1'', lit ''A2'')]"
proof -
  have q: "qaPairs orphan_block = [lit ''QUESTION_1:::Q1\<newline>'', lit ''\<newline>ANSWER_2:::A2\<newline>'']"
    by (simp add: qaPairs_def orphan_block_def eval_string)
  have b: "filter both_tagged (qaPairs orphan_block) = []"
    unfolding q by (simp add: both_tagged_def has_tag_line_def eval_string)
  have r: "records (parse_block orphan_block) = [(lit ''Q1'', lit ''A2'')]"
    by (simp add: orphan_parse records_def)
  show ?thesis using orphan_match q b r by blast
qed

subsection \<open>Where the block is split into groups\<close>

lemma join_Cons: "xs \<noteq> [] \<Longrightarrow> join (x # xs) sep = x @ sep @ join xs sep"
  by (cases xs) simp_all

lemma split_from_nonempty: "split_from sep piece s \<noteq> []"
  by (induction sep piece s rule: split_from.induct) auto

lemma split_from_join: "join (split_from sep piece s) sep = piece @ s"
proof (induction sep piece s rule: split_from.induct)
  case (1 sep piece)
  then show ?case by simp
next
  case (2 sep piece c cs)
  show ?case
  proof (cases "sep \<noteq> [] \<and> startsWith (c # cs) sep")
    case True
    then have e: "c # cs = sep @ drop (length sep) (c # cs)"
      by (metis append_take_drop_id startsWith_def)
    have "join (split_from sep piece (c # cs)) sep =
        piece @ sep @ join (split_from sep [] (drop (length sep) (c # cs))) sep"
      using True by (simp add: join_Cons split_from_nonempty)
    also have "\<dots> = piece @ sep @ drop (length sep) (c # cs)"
      using 2(1) [OF True] by simp
    finally show ?thesis using e by simp
  next
    case False
    then show ?thesis using 2(2) [OF False] by auto
  qed
qed

lemma occurs_at_append_left: "occurs_at xs p k \<Longrightarrow> occurs_at (xs @ ys) p k"
proof -
  assume a: "occurs_at xs p k"
  then have t: "take (length p) (drop k xs) = p" by (simp add: occurs_at_def startsWith_def)
  have "length p \<le> length (drop k xs)"
    using a startsWith_length [of "drop k xs" p] by (simp add: occurs_at_def)
  then have "take (length p) (drop k xs @ drop (k - length xs) ys) = take (length p) (drop k xs)"
    by simp
  then show ?thesis using t by (simp add: occurs_at_def startsWith_def)
qed

lemma occurs_at_append_right: "occurs_at (xs @ ys) p (length xs) = startsWith ys p"
  by (simp add: occurs_at_def)

lemma split_from_no_sep:
  "sep \<noteq> [] \<Longrightarrow> (\<And>k. k < length piece \<Longrightarrow> \<not> occurs_at (piece @ s) sep k)
     \<Longrightarrow> x \<in> set (split_from sep piece s) \<Longrightarrow> \<not> occurs_at x sep k"
proof (induction sep piece s arbitrary: x k rule: split_from.induct)
  case (1 sep piece)
  then have x: "x = piece" by simp
  show ?case
  proof
    assume o: "occurs_at x sep k"
    then have "k < length piece" using occurs_at_bound [OF 1(1) o] 1(1) x by (cases sep) auto
    with 1(2) o x show False by simp
  qed
next
  case (2 sep piece c cs)
  show ?case
  proof (cases "startsWith (c # cs) sep")
    case True
    then have "x = piece \<or> x \<in> set (split_from sep [] (drop (length sep) (c # cs)))"
      using 2(3,5) by simp
    then show ?thesis
    proof
      assume x: "x = piece"
      show ?thesis
      proof
        assume o: "occurs_at x sep k"
        then have "k < length piece" using occurs_at_bound [OF 2(3) o] 2(3) x by (cases sep) auto
        moreover have "occurs_at (piece @ c # cs) sep k" using o x by (simp add: occurs_at_append_left)
        ultimately show False using 2(4) by blast
      qed
    next
      assume "x \<in> set (split_from sep [] (drop (length sep) (c # cs)))"
      then show ?thesis using 2(1) [OF _ 2(3)] True 2(3) by simp
    qed
  next
    case False
    then have x: "x \<in> set (split_from sep (piece @ [c]) cs)" using 2(5) by simp
    have inv: "\<not> occurs_at ((piece @ [c]) @ cs) sep j" if "j < length (piece @ [c])" for j
    proof (cases "j < length piece")
      case True
      then show ?thesis using 2(4) by simp
    next
      case f: False
      then have "j = length piece" using that by simp
      then show ?thesis using False occurs_at_append_right [of piece "c # cs" sep] by simp
    qed
    show ?thesis using 2(2) [OF _ 2(3) inv x] False by simp
  qed
qed

text \<open>
  C4 (as the code has it). The groups are the pieces of the block between the
  occurrences of the three code units \<open>---\<close>, wherever they stand: joining the pieces
  with \<open>---\<close> gives the block back, no piece contains \<open>---\<close>, and the groups are the
  pieces that are not blank. An occurrence of \<open>---\<close> inside a question or answer line
  starts a new group.
\<close>

theorem split_on_every_separator:
  "join (split resultsBlock (lit ''---'')) (lit ''---'') = resultsBlock \<and>
   list_all (\<lambda>piece. \<forall>k. \<not> occurs_at piece (lit ''---'') k) (split resultsBlock (lit ''---'')) \<and>
   qaPairs resultsBlock = filter (\<lambda>pair. trim pair \<noteq> []) (split resultsBlock (lit ''---''))"
proof (intro conjI)
  show "join (split resultsBlock (lit ''---'')) (lit ''---'') = resultsBlock"
    by (simp add: split_def split_from_join)
  show "list_all (\<lambda>piece. \<forall>k. \<not> occurs_at piece (lit ''---'') k) (split resultsBlock (lit ''---''))"
    unfolding list_all_iff split_def
    using split_from_no_sep [of "lit ''---''" "[]" resultsBlock] by simp
  show "qaPairs resultsBlock = filter (\<lambda>pair. trim pair \<noteq> []) (split resultsBlock (lit ''---''))"
    by (simp add: qaPairs_def)
qed

lemma dash_split:
  "split dash_block (lit ''---'') = [lit ''QUESTION_1:::a'', lit ''b\<newline>ANSWER_1:::c'']"
  by (simp add: dash_block_def eval_string)

theorem split_on_every_separator_witness:
  "join [lit ''QUESTION_1:::a'', lit ''b\<newline>ANSWER_1:::c''] (lit ''---'') = dash_block \<and>
   list_all (\<lambda>piece. \<forall>k. \<not> occurs_at piece (lit ''---'') k)
     [lit ''QUESTION_1:::a'', lit ''b\<newline>ANSWER_1:::c'']"
  using split_on_every_separator [of dash_block] unfolding dash_split by simp

text \<open>
  C4 as stated fails: the block below has no line that is \<open>---\<close>, and yet it is split
  into two groups inside the question line, which leaves the question \<open>a\<close>.
\<close>

theorem dashes_inside_a_line_split:
  "lit ''---'' \<notin> set (split dash_block (lit ''\<newline>'')) \<and>
   qaPairs dash_block = [lit ''QUESTION_1:::a'', lit ''b\<newline>ANSWER_1:::c''] \<and>
   records (parse_block dash_block) = [(lit ''a'', lit ''c'')]"
proof -
  have 1: "lit ''---'' \<notin> set (split dash_block (lit ''\<newline>''))"
    by (simp add: dash_block_def eval_string)
  have 2: "qaPairs dash_block = [lit ''QUESTION_1:::a'', lit ''b\<newline>ANSWER_1:::c'']"
    by (simp add: qaPairs_def dash_split) (simp add: eval_string)
  have 3: "records (parse_block dash_block) = [(lit ''a'', lit ''c'')]"
    unfolding parse_block_def 2
    by (simp add: records_def parse_pair_def scan_pair_def scan_line_def scan_init_def field1_def
        eval_string)
  show ?thesis using 1 2 3 by blast
qed

subsection \<open>The answer buffer of a group\<close>


lemma scan_line_answer:
  assumes "startsWith line (lit ''ANSWER_'')" "field1 line = Some answerFirstLine"
    "answerFirstLine \<noteq> []"
  shows "currentAnswerLines (scan_line st line) = currentAnswerLines st @ [trim answerFirstLine]"
  using assms answer_not_question [OF assms(1)] by (simp add: scan_line_def)

lemma scan_line_extends:
  "\<exists>later. currentAnswerLines (scan_line st line) = currentAnswerLines st @ later"
  by (auto simp: scan_line_def split: option.splits)

lemma scan_lines_extend:
  "\<exists>later. currentAnswerLines (foldl scan_line st lines) = currentAnswerLines st @ later"
proof (induction lines arbitrary: st)
  case Nil
  then show ?case by simp
next
  case (Cons l ls)
  obtain e1 where 1: "currentAnswerLines (scan_line st l) = currentAnswerLines st @ e1"
    using scan_line_extends by blast
  obtain e2 where "currentAnswerLines (foldl scan_line (scan_line st l) ls) =
      currentAnswerLines (scan_line st l) @ e2"
    using Cons.IH by blast
  with 1 show ?case by (intro exI [of _ "e1 @ e2"]) simp
qed

text \<open>
  C6 (as the code has it). A group has a single answer buffer, and an \<open>ANSWER_\<close> line
  with a non-empty text appends that text to it: whatever the lines before and after,
  the buffer after the group is the buffer before the line, then the text of the line,
  then what later lines add. Text of earlier \<open>ANSWER_\<close> lines stays in the answer.
\<close>

theorem answer_lines_accumulate:
  assumes "startsWith line (lit ''ANSWER_'')" "field1 line = Some answerFirstLine"
    "answerFirstLine \<noteq> []"
  shows "\<exists>later. currentAnswerLines (foldl scan_line st (before @ [line] @ after)) =
           currentAnswerLines (foldl scan_line st before) @ [trim answerFirstLine] @ later"
proof -
  let ?s = "foldl scan_line st before"
  obtain later where "currentAnswerLines (foldl scan_line (scan_line ?s line) after) =
      currentAnswerLines (scan_line ?s line) @ later"
    using scan_lines_extend by blast
  then show ?thesis using scan_line_answer [OF assms, of ?s] by simp
qed

theorem answer_lines_accumulate_witness:
  "startsWith (lit ''ANSWER_2:::second'') (lit ''ANSWER_'') \<and>
   field1 (lit ''ANSWER_2:::second'') = Some (lit ''second'') \<and>
   (\<exists>later. currentAnswerLines (foldl scan_line scan_init
        ([lit ''QUESTION_1:::Q'', lit ''ANSWER_1:::first''] @ [lit ''ANSWER_2:::second''] @ [])) =
      currentAnswerLines (foldl scan_line scan_init [lit ''QUESTION_1:::Q'', lit ''ANSWER_1:::first''])
        @ [trim (lit ''second'')] @ later) \<and>
   currentAnswerLines (foldl scan_line scan_init [lit ''QUESTION_1:::Q'', lit ''ANSWER_1:::first''])
     = [lit ''first'']"
proof -
  have 1: "startsWith (lit ''ANSWER_2:::second'') (lit ''ANSWER_'')"
    by (simp add: eval_string)
  have 2: "field1 (lit ''ANSWER_2:::second'') = Some (lit ''second'')"
    by (simp add: field1_def eval_string)
  have 3: "lit ''second'' \<noteq> []" by simp
  have 4: "currentAnswerLines (foldl scan_line scan_init [lit ''QUESTION_1:::Q'', lit ''ANSWER_1:::first''])
     = [lit ''first'']"
    by (simp add: scan_line_def scan_init_def field1_def eval_string)
  show ?thesis
    using 1 2 4 answer_lines_accumulate [OF 1 2 3, of scan_init "[lit ''QUESTION_1:::Q'', lit ''ANSWER_1:::first'']" "[]"]
    by blast
qed

text \<open>
  C6 as stated fails: with two \<open>ANSWER_\<close> lines the answer of the record holds the text
  of both, joined by a blank line.
\<close>

theorem earlier_answer_line_kept:
  "parse_block two_answer_block = ([lit ''Q''], [lit ''first\<newline>\<newline>second'']) \<and>
   snd (parse_block two_answer_block) \<noteq> [lit ''second'']"
proof -
  have "parse_block two_answer_block = ([lit ''Q''], [lit ''first\<newline>\<newline>second''])"
    by (simp add: two_answer_block_def parse_block_def qaPairs_def parse_pair_def scan_pair_def
        scan_line_def scan_init_def field1_def eval_string)
  moreover have "[lit ''first\<newline>\<newline>second''] \<noteq> [lit ''second'']" by (simp add: lit_simps)
  ultimately show ?thesis by simp
qed

subsection \<open>Scenario A\<close>

lemma scenario_parse:
  "parse_block scenario_block = ([lit ''What caused X?''], [lit ''Because Y.''])"
  by (simp add: scenario_block_def parse_block_def qaPairs_def parse_pair_def scan_pair_def
      scan_line_def scan_init_def field1_def eval_string)

lemma scenario_plan:
  "telegram_plan [lit ''What caused X?''] [lit ''Because Y.''] =
     [telegram (lit ''\<newline>1. What caused X?\<newline>\<newline>Answer: Because Y.'')]"
  by (simp add: telegram_plan_def telegram_fragments_def toString_digit eval_string)

lemma scenario_send:
  "telegram_send_records (Some always_fulfils) [lit ''What caused X?''] [lit ''Because Y.''] [] =
     Inr [Call (telegram (lit ''\<newline>1. What caused X?\<newline>\<newline>Answer: Because Y.'')),
          Fulfilled (telegram (lit ''\<newline>1. What caused X?\<newline>\<newline>Answer: Because Y.''))]"
  unfolding telegram_send_records_eq telegram_plan_def [symmetric] scenario_plan
  by (simp add: for_each_await_Cons always_fulfils_def del: for_each.simps(2))

text \<open>
  C7 (as the code has it). The block of scenario A gives one record, with question
  \<open>What caused X?\<close> and answer \<open>Because Y.\<close>, and the handler sends exactly one message
  for it, whose text is a line feed followed by \<open>1. What caused X?\<close>, a blank line and
  \<open>Answer: Because Y.\<close>
\<close>

theorem scenario_A:
  "parse_block scenario_block = ([lit ''What caused X?''], [lit ''Because Y.'']) \<and>
   records (parse_block scenario_block) = [(lit ''What caused X?'', lit ''Because Y.'')] \<and>
   telegram_send_records (Some always_fulfils)
       (fst (parse_block scenario_block)) (snd (parse_block scenario_block)) [] =
     Inr [Call (telegram (lit ''\<newline>1. What caused X?\<newline>\<newline>Answer: Because Y.'')),
          Fulfilled (telegram (lit ''\<newline>1. What caused X?\<newline>\<newline>Answer: Because Y.''))]"
  unfolding scenario_parse using scenario_send by (simp add: records_def)

text \<open>
  C7 as stated fails: the text that is sent begins with a line feed, which the stated
  text does not have.
\<close>

theorem scenario_A_leading_newline:
  "calls (trace_of (telegram_send_records (Some always_fulfils)
       (fst (parse_block scenario_block)) (snd (parse_block scenario_block)) [])) =
     [telegram (lit ''\<newline>1. What caused X?\<newline>\<newline>Answer: Because Y.'')] \<and>
   msg_text (telegram (lit ''\<newline>1. What caused X?\<newline>\<newline>Answer: Because Y.''))
     \<noteq> lit ''1. What caused X?\<newline>\<newline>Answer: Because Y.''"
proof -
  have "lit ''\<newline>1. What caused X?\<newline>\<newline>Answer: Because Y.''
     \<noteq> lit ''1. What caused X?\<newline>\<newline>Answer: Because Y.''"
    by (simp add: lit_simps)
  then show ?thesis
    unfolding scenario_parse by (simp add: scenario_send telegram_def)
qed

end
